theory Spec2Isabelle
  imports Complex_Main
begin

section \<open>Abalone: data model (abalone.h)\<close>

text \<open>
  The C++ types are modelled as follows.
  \<^item> \<open>int\<close>, \<open>Player\<close> (an \<open>int\<close>) and \<open>Action\<close> (an \<open>int64_t\<close>) are HOL integers. Signed
    overflow is undefined behaviour in C++ and is not modelled: the model agrees with the
    source as long as coordinates stay within, say, \<open>\<plusminus> 2^30\<close>, which every state and every
    decoded move does by a wide margin. The one place where a 64-bit value is stored into
    an \<open>int\<close> field (the decoder) is written out with \<open>narrow_int\<close>. Division and
    remainder truncate towards zero, as in C++ (\<open>c_div\<close>, \<open>c_mod\<close>).
  \<^item> \<open>std::array<CellState, 81>\<close> is a list of cells; \<open>BoardAt\<close> and \<open>SetBoard\<close> index it
    with \<open>row * 9 + column\<close>, exactly as the source does, so a column outside \<open>0..8\<close> can
    alias a cell of a neighbouring row. An index outside the array is undefined behaviour
    in C++; at every read that the source does not guard, the model returns
    \<open>Inl UndefinedBehaviour\<close>.
  \<^item> \<open>SpielFatalError\<close> aborts the program: \<open>Inl SpielFatalError\<close>.
  \<^item> Names are those of the source, without the trailing underscore of the data members
    (\<open>board_\<close>, \<open>current_player_\<close>, \<open>outcome_\<close>, \<open>num_moves_\<close>) and without the leading
    underscore of the private methods (\<open>_IsValidSlide\<close>, \<open>_ApplySingleMove\<close>,
    \<open>_ApplyParallelMove\<close>).
  \<^item> Results are \<open>error + 'a\<close>.
\<close>

datatype error = SpielFatalError | UndefinedBehaviour | NonTermination

datatype Direction = RIGHT | UP_RIGHT | UP_LEFT | LEFT | DOWN_LEFT | DOWN_RIGHT

definition Direction_Last :: int where
  "Direction_Last = 6"

text \<open>The enumerator values, and the cast \<open>Direction(i)\<close> of an integer: \<open>None\<close> when the
  integer is no enumerator, so that the cast value would index the tables out of bounds.\<close>

fun Direction_value :: "Direction \<Rightarrow> int" where
  "Direction_value RIGHT = 0"
| "Direction_value UP_RIGHT = 1"
| "Direction_value UP_LEFT = 2"
| "Direction_value LEFT = 3"
| "Direction_value DOWN_LEFT = 4"
| "Direction_value DOWN_RIGHT = 5"

definition Direction_cast :: "int \<Rightarrow> Direction option" where
  "Direction_cast i =
     (if i = 0 then Some RIGHT
      else if i = 1 then Some UP_RIGHT
      else if i = 2 then Some UP_LEFT
      else if i = 3 then Some LEFT
      else if i = 4 then Some DOWN_LEFT
      else if i = 5 then Some DOWN_RIGHT
      else None)"

definition all_directions :: "Direction list" where
  \<comment> \<open>the range of \<open>for (dir = Direction_First; dir < Direction_Last; dir = Direction(dir+1))\<close>\<close>
  "all_directions = [RIGHT, UP_RIGHT, UP_LEFT, LEFT, DOWN_LEFT, DOWN_RIGHT]"

definition kNumPlayers :: int where "kNumPlayers = 2"
definition kNumRows :: int where "kNumRows = 9"
definition kNumCols :: int where "kNumCols = 9"
definition kNumCells :: int where "kNumCells = kNumRows * kNumCols"
definition kNumActionsPerDirection :: int where "kNumActionsPerDirection = 5"
definition kNumActionsPerCell :: int where
  "kNumActionsPerCell = Direction_Last * kNumActionsPerDirection"
definition kHistoryMax :: int where "kHistoryMax = 200"
definition kMarblesToWin :: int where "kMarblesToWin = 6"

text \<open>Modelled from the spec: the player-id sentinels of the host framework
  (\<open>kInvalidPlayer\<close>, \<open>kTerminalPlayerId\<close>) are declared in a header that is not part of
  the sources at hand. The spec only says that the outcome is "unset" until the game is
  decided and that a terminal state has no player to move; the model uses two distinct
  negative ids, different from the players \<open>0\<close> and \<open>1\<close>.\<close>

definition kInvalidPlayer :: int where "kInvalidPlayer = -3"
definition kTerminalPlayerId :: int where "kTerminalPlayerId = -4"

datatype CellState = kInvalid | kEmpty | kPlayer1 | kPlayer2

record Coordinate =
  m_row :: int
  m_column :: int

definition Offsets :: "Direction \<Rightarrow> Coordinate" where
  "Offsets d =
     (case d of
        RIGHT \<Rightarrow> \<lparr>m_row = 0, m_column = 1\<rparr>
      | UP_RIGHT \<Rightarrow> \<lparr>m_row = -1, m_column = 1\<rparr>
      | UP_LEFT \<Rightarrow> \<lparr>m_row = -1, m_column = 0\<rparr>
      | LEFT \<Rightarrow> \<lparr>m_row = 0, m_column = -1\<rparr>
      | DOWN_LEFT \<Rightarrow> \<lparr>m_row = 1, m_column = -1\<rparr>
      | DOWN_RIGHT \<Rightarrow> \<lparr>m_row = 1, m_column = 0\<rparr>)"

definition Offsets_at :: "int \<Rightarrow> Coordinate option" where
  \<comment> \<open>\<open>Offsets[i]\<close> for a raw integer index; \<open>None\<close> is a read outside the table\<close>
  "Offsets_at i = map_option Offsets (Direction_cast i)"

definition Sisters :: "Direction \<Rightarrow> Direction \<times> Direction" where
  "Sisters d =
     (case d of
        RIGHT \<Rightarrow> (UP_RIGHT, UP_LEFT)
      | UP_RIGHT \<Rightarrow> (UP_LEFT, LEFT)
      | UP_LEFT \<Rightarrow> (LEFT, DOWN_LEFT)
      | LEFT \<Rightarrow> (DOWN_LEFT, DOWN_RIGHT)
      | DOWN_LEFT \<Rightarrow> (DOWN_RIGHT, RIGHT)
      | DOWN_RIGHT \<Rightarrow> (RIGHT, UP_RIGHT))"

record Move =
  m_direction :: Direction
  m_start :: Coordinate
  m_end :: Coordinate

definition VALID_BOARD :: "CellState list list" where
  "VALID_BOARD =
    [[kInvalid, kInvalid, kInvalid, kInvalid, kEmpty, kEmpty, kEmpty, kEmpty, kEmpty],
     [kInvalid, kInvalid, kInvalid, kEmpty, kEmpty, kEmpty, kEmpty, kEmpty, kEmpty],
     [kInvalid, kInvalid, kEmpty, kEmpty, kEmpty, kEmpty, kEmpty, kEmpty, kEmpty],
     [kInvalid, kEmpty, kEmpty, kEmpty, kEmpty, kEmpty, kEmpty, kEmpty, kEmpty],
     [kEmpty, kEmpty, kEmpty, kEmpty, kEmpty, kEmpty, kEmpty, kEmpty, kEmpty],
     [kEmpty, kEmpty, kEmpty, kEmpty, kEmpty, kEmpty, kEmpty, kEmpty, kInvalid],
     [kEmpty, kEmpty, kEmpty, kEmpty, kEmpty, kEmpty, kEmpty, kInvalid, kInvalid],
     [kEmpty, kEmpty, kEmpty, kEmpty, kEmpty, kEmpty, kInvalid, kInvalid, kInvalid],
     [kEmpty, kEmpty, kEmpty, kEmpty, kEmpty, kInvalid, kInvalid, kInvalid, kInvalid]]"

definition ABALONE_INIT_CLASSIC :: "CellState list list" where
  "ABALONE_INIT_CLASSIC =
    [[kInvalid, kInvalid, kInvalid, kInvalid, kPlayer2, kPlayer2, kPlayer2, kPlayer2, kPlayer2],
     [kInvalid, kInvalid, kInvalid, kPlayer2, kPlayer2, kPlayer2, kPlayer2, kPlayer2, kPlayer2],
     [kInvalid, kInvalid, kEmpty, kEmpty, kPlayer2, kPlayer2, kPlayer2, kEmpty, kEmpty],
     [kInvalid, kEmpty, kEmpty, kEmpty, kEmpty, kEmpty, kEmpty, kEmpty, kEmpty],
     [kEmpty, kEmpty, kEmpty, kEmpty, kEmpty, kEmpty, kEmpty, kEmpty, kEmpty],
     [kEmpty, kEmpty, kEmpty, kEmpty, kEmpty, kEmpty, kEmpty, kEmpty, kInvalid],
     [kEmpty, kEmpty, kPlayer1, kPlayer1, kPlayer1, kEmpty, kEmpty, kInvalid, kInvalid],
     [kPlayer1, kPlayer1, kPlayer1, kPlayer1, kPlayer1, kPlayer1, kInvalid, kInvalid, kInvalid],
     [kPlayer1, kPlayer1, kPlayer1, kPlayer1, kPlayer1, kInvalid, kInvalid, kInvalid, kInvalid]]"

record AbaloneState =
  board :: "CellState list"
  current_player :: int
  outcome :: int
  num_moves :: int

definition BoardAt :: "AbaloneState \<Rightarrow> int \<Rightarrow> int \<Rightarrow> CellState" where
  "BoardAt s row column = board s ! nat (row * kNumCols + column)"

definition SetBoard :: "AbaloneState \<Rightarrow> int \<Rightarrow> int \<Rightarrow> CellState \<Rightarrow> AbaloneState" where
  "SetBoard s row column state =
     s\<lparr>board := (board s)[nat (row * kNumCols + column) := state]\<rparr>"

definition index_ok :: "int \<Rightarrow> int \<Rightarrow> bool" where
  \<comment> \<open>the index \<open>row * kNumCols + column\<close> lies inside \<open>board\<close>\<close>
  "index_ok row column \<longleftrightarrow> 0 \<le> row * kNumCols + column \<and> row * kNumCols + column < kNumCells"

section \<open>Machine arithmetic\<close>

definition c_div :: "int \<Rightarrow> int \<Rightarrow> int" where
  "c_div a b = sgn a * sgn b * (\<bar>a\<bar> div \<bar>b\<bar>)"

definition c_mod :: "int \<Rightarrow> int \<Rightarrow> int" where
  "c_mod a b = sgn a * (\<bar>a\<bar> mod \<bar>b\<bar>)"

definition narrow_int :: "int \<Rightarrow> int" where
  \<comment> \<open>storing a 64-bit value into an \<open>int\<close>: reduction modulo \<open>2^32\<close> into the signed range\<close>
  "narrow_int x = (x + 2 ^ 31) mod 2 ^ 32 - 2 ^ 31"

section \<open>The move codec (ActionToMove, MoveToAction)\<close>

text \<open>\<open>ActionToMove\<close> performs no range check. A negative id that is no multiple of 30
  makes the direction negative (the reads \<open>Offsets[dir]\<close> are then out of bounds) or the
  move type negative (no \<open>case\<close> of the \<open>switch\<close> matches and \<open>m_end\<close> is returned
  uninitialised); the model returns \<open>Inl UndefinedBehaviour\<close> in both cases. Every other
  id, negative or not, is decoded to a move.\<close>

definition ActionToMove :: "int \<Rightarrow> error + Move" where
  "ActionToMove moveId =
     (let remains = moveId;
          moveType = c_mod remains kNumActionsPerDirection;
          remains = c_div remains kNumActionsPerDirection;
          dirv = c_mod remains Direction_Last;
          remains = c_div remains Direction_Last;
          column = c_mod remains kNumCols;
          remains = c_div remains kNumCols;
          row = remains
      in case Direction_cast dirv of
           None \<Rightarrow> Inl UndefinedBehaviour
         | Some dir \<Rightarrow>
            (let offset = Offsets dir;
                 start = \<lparr>m_row = narrow_int row, m_column = narrow_int column\<rparr>;
                 mk = (\<lambda>k slide. Inr \<lparr>m_direction = dir, m_start = start,
                         m_end = \<lparr>m_row = narrow_int (row + k * m_row slide),
                                  m_column = narrow_int (column + k * m_column slide)\<rparr>\<rparr>)
             in if moveType = 0 then mk 1 offset
                else if moveType = 1 then
                  (case Offsets_at (c_mod (Direction_value dir + 1) Direction_Last) of
                     None \<Rightarrow> Inl UndefinedBehaviour | Some slide \<Rightarrow> mk 1 slide)
                else if moveType = 2 then
                  (case Offsets_at (c_mod (Direction_value dir + 2) Direction_Last) of
                     None \<Rightarrow> Inl UndefinedBehaviour | Some slide \<Rightarrow> mk 1 slide)
                else if moveType = 3 then
                  (case Offsets_at (c_mod (Direction_value dir + 1) Direction_Last) of
                     None \<Rightarrow> Inl UndefinedBehaviour | Some slide \<Rightarrow> mk 2 slide)
                else if moveType = 4 then
                  (case Offsets_at (c_mod (Direction_value dir + 2) Direction_Last) of
                     None \<Rightarrow> Inl UndefinedBehaviour | Some slide \<Rightarrow> mk 2 slide)
                else Inl UndefinedBehaviour))"

definition MoveToAction :: "Move \<Rightarrow> int" where
  "MoveToAction move =
     (let result = m_row (m_start move);
          result = result * kNumCols;
          result = result + m_column (m_start move);
          result = result * Direction_Last;
          result = result + Direction_value (m_direction move);
          result = result * 5;
          offset = Offsets (m_direction move)
      in if m_row (m_start move) + m_row offset \<noteq> m_row (m_end move) \<or>
            m_column (m_start move) + m_column offset \<noteq> m_column (m_end move)
         then
           (let slideF = Offsets (fst (Sisters (m_direction move)));
                slideB = Offsets (snd (Sisters (m_direction move)))
            in if m_row (m_start move) + m_row slideF = m_row (m_end move) \<and>
                  m_column (m_start move) + m_column slideF = m_column (m_end move)
               then result + 1
               else if m_row (m_start move) + m_row slideB = m_row (m_end move) \<and>
                       m_column (m_start move) + m_column slideB = m_column (m_end move)
               then result + 2
               else if m_row (m_start move) + m_row slideF + m_row slideF = m_row (m_end move) \<and>
                       m_column (m_start move) + m_column slideF + m_column slideF
                         = m_column (m_end move)
               then result + 3
               else if m_row (m_start move) + m_row slideB + m_row slideB = m_row (m_end move) \<and>
                       m_column (m_start move) + m_column slideB + m_column slideB
                         = m_column (m_end move)
               then result + 4
               else result)
         else result)"

section \<open>The validator (Move::IsValid, Move::_IsValidSlide)\<close>

definition IsTerminal :: "AbaloneState \<Rightarrow> bool" where
  "IsTerminal s \<longleftrightarrow> outcome s \<noteq> kInvalidPlayer \<or> num_moves s \<ge> kHistoryMax"

definition CurrentPlayer :: "AbaloneState \<Rightarrow> int" where
  "CurrentPlayer s = (if IsTerminal s then kTerminalPlayerId else current_player s)"

definition PlayerToState :: "int \<Rightarrow> error + CellState" where
  "PlayerToState player =
     (if player = kInvalidPlayer then Inr kInvalid
      else if player = 0 then Inr kPlayer1
      else if player = 1 then Inr kPlayer2
      else Inl SpielFatalError)"

text \<open>The walk of \<open>_IsValidSlide\<close>: \<open>n\<close> iterations are left. The read of the walked cell
  is not guarded by a bounds check in the source.\<close>

fun IsValidSlide_loop ::
  "AbaloneState \<Rightarrow> nat \<Rightarrow> CellState \<Rightarrow> Coordinate \<Rightarrow> int \<Rightarrow> int \<Rightarrow> int \<Rightarrow> int \<Rightarrow> error + bool"
where
  "IsValidSlide_loop s 0 player direction current_row current_column slide_line slide_column =
     Inr True"
| "IsValidSlide_loop s (Suc n) player direction current_row current_column slide_line slide_column =
     (if \<not> index_ok current_row current_column then Inl UndefinedBehaviour
      else if BoardAt s current_row current_column \<noteq> player then Inr False
      else
        (let destination_row = current_row + m_row direction;
             destination_column = current_column + m_column direction
         in if destination_row < 0 \<or> destination_row \<ge> kNumRows then Inr False
            else if destination_column < 0 \<or> destination_column \<ge> kNumCols then Inr False
            else if BoardAt s destination_row destination_column \<noteq> kEmpty then Inr False
            else IsValidSlide_loop s n player direction
                   (current_row + slide_line) (current_column + slide_column)
                   slide_line slide_column))"

definition IsValidSlide :: "Move \<Rightarrow> AbaloneState \<Rightarrow> error + bool" where
  "IsValidSlide m s =
     (if \<not> index_ok (m_row (m_start m)) (m_column (m_start m)) then Inl UndefinedBehaviour
      else
        (let player = BoardAt s (m_row (m_start m)) (m_column (m_start m))
         in if player = kEmpty \<or> player = kInvalid then Inr False
            else
              (let rSize = \<bar>m_row (m_end m) - m_row (m_start m)\<bar> + 1;
                   cSize = \<bar>m_column (m_end m) - m_column (m_start m)\<bar> + 1
               in if rSize > 3 then Inr False
                  else if cSize > 3 then Inr False
                  else
                    (let slide_line = max (min (m_row (m_end m) - m_row (m_start m)) 1) (- 1);
                         slide_column =
                           max (min (m_column (m_end m) - m_column (m_start m)) 1) (- 1);
                         valid_direction =
                           fold (\<lambda>dir v. if m_row (Offsets dir) = slide_line \<and>
                                             m_column (Offsets dir) = slide_column
                                          then True else v)
                                all_directions False
                     in if \<not> valid_direction then Inr False
                        else
                          (let direction = Offsets (m_direction m);
                               size = max cSize rSize
                           in IsValidSlide_loop s (nat size) player direction
                                (m_row (m_start m)) (m_column (m_start m))
                                slide_line slide_column)))))"

text \<open>The loop of \<open>IsValid\<close> that fills \<open>line_content\<close>: positions outside the grid read as
  \<open>kInvalid\<close>.\<close>

fun line_content_loop ::
  "AbaloneState \<Rightarrow> nat \<Rightarrow> int \<Rightarrow> int \<Rightarrow> int \<Rightarrow> int \<Rightarrow> CellState list"
where
  "line_content_loop s 0 current_row current_column vectorR vectorC = []"
| "line_content_loop s (Suc n) current_row current_column vectorR vectorC =
     (if current_row \<ge> 0 \<and> current_row < kNumRows \<and>
         current_column \<ge> 0 \<and> current_column < kNumCols
      then BoardAt s current_row current_column else kInvalid)
     # line_content_loop s n (current_row + vectorR) (current_column + vectorC) vectorR vectorC"

definition IsValid :: "Move \<Rightarrow> AbaloneState \<Rightarrow> error + bool" where
  "IsValid m s =
     (if m_row (m_start m) < 0 \<or> m_row (m_start m) \<ge> kNumRows then Inr False
      else if m_column (m_start m) < 0 \<or> m_column (m_start m) \<ge> kNumCols then Inr False
      else if m_row (m_end m) < 0 \<or> m_row (m_end m) \<ge> kNumRows then Inr False
      else if m_column (m_end m) < 0 \<or> m_column (m_end m) \<ge> kNumCols then Inr False
      else
        (let current_row = m_row (m_start m);
             current_column = m_column (m_start m);
             player = BoardAt s current_row current_column
         in case PlayerToState (CurrentPlayer s) of
              Inl e \<Rightarrow> Inl e
            | Inr mover \<Rightarrow>
               if player \<noteq> mover then Inr False
               else
                 (let vectorR = m_row (m_end m) - m_row (m_start m);
                      vectorC = m_column (m_end m) - m_column (m_start m);
                      direction = Offsets (m_direction m)
                  in if m_row direction \<noteq> vectorR \<or> m_column direction \<noteq> vectorC
                     then IsValidSlide m s
                     else
                       (let line_content =
                              line_content_loop s 6 current_row current_column vectorR vectorC;
                            opponent = (if player = kPlayer1 then kPlayer2 else kPlayer1)
                        in if line_content ! 1 = kEmpty then Inr True
                           else if line_content ! 1 = player \<and> line_content ! 2 = kEmpty
                             then Inr True
                           else if line_content ! 1 = player \<and> line_content ! 2 = opponent \<and>
                                   (line_content ! 3 = kInvalid \<or> line_content ! 3 = kEmpty)
                             then Inr True
                           else if line_content ! 1 = player \<and> line_content ! 2 = player \<and>
                                   line_content ! 3 = kEmpty
                             then Inr True
                           else if line_content ! 1 = player \<and> line_content ! 2 = player \<and>
                                   line_content ! 3 = opponent \<and>
                                   (line_content ! 4 = kInvalid \<or> line_content ! 4 = kEmpty)
                             then Inr True
                           else if line_content ! 1 = player \<and> line_content ! 2 = player \<and>
                                   line_content ! 3 = opponent \<and> line_content ! 4 = opponent \<and>
                                   (line_content ! 5 = kInvalid \<or> line_content ! 5 = kEmpty)
                             then Inr True
                           else Inr False))))"

section \<open>The executor (Move::Apply)\<close>

text \<open>The \<open>for\<close> loop of \<open>_ApplyParallelMove\<close>, with \<open>n\<close> iterations left; every \<open>break\<close>
  returns the state as it is.\<close>

fun ApplyParallelMove_loop ::
  "AbaloneState \<Rightarrow> nat \<Rightarrow> CellState \<Rightarrow> int \<Rightarrow> int \<Rightarrow> int \<Rightarrow> int \<Rightarrow> int \<Rightarrow> int \<Rightarrow> AbaloneState"
where
  "ApplyParallelMove_loop s 0 player r c dr dc slide_row slide_column = s"
| "ApplyParallelMove_loop s (Suc n) player r c dr dc slide_row slide_column =
     (if r < 0 \<or> r \<ge> kNumRows \<or> c < 0 \<or> c \<ge> kNumCols then s
      else if BoardAt s r c \<noteq> player then s
      else
        (let dst_r = r + dr; dst_c = c + dc
         in if dst_r < 0 \<or> dst_r \<ge> kNumRows \<or> dst_c < 0 \<or> dst_c \<ge> kNumCols then s
            else if BoardAt s dst_r dst_c \<noteq> kEmpty then s
            else ApplyParallelMove_loop
                   (SetBoard (SetBoard s dst_r dst_c player) r c kEmpty) n player
                   (r + slide_row) (c + slide_column) dr dc slide_row slide_column))"

definition ApplyParallelMove :: "Move \<Rightarrow> AbaloneState \<Rightarrow> int \<Rightarrow> int \<Rightarrow> error + AbaloneState" where
  "ApplyParallelMove m s dr dc =
     (let slide_row = max (min (m_row (m_end m) - m_row (m_start m)) 1) (- 1);
          slide_column = max (min (m_column (m_end m) - m_column (m_start m)) 1) (- 1);
          rSize = \<bar>m_row (m_end m) - m_row (m_start m)\<bar>;
          cSize = \<bar>m_column (m_end m) - m_column (m_start m)\<bar>;
          size = max rSize cSize;
          r = m_row (m_start m);
          c = m_column (m_start m)
      in if \<not> index_ok r c then Inl UndefinedBehaviour
         else Inr (ApplyParallelMove_loop s (nat (size + 1)) (BoardAt s r c) r c dr dc
                     slide_row slide_column))"

text \<open>The \<open>while\<close> loop of \<open>_ApplySingleMove\<close>. It is not bounded by a counter, so the model
  is a partial function: \<open>None\<close> would be a walk that never leaves the loop.\<close>

partial_function (option) ApplySingleMove_loop ::
  "AbaloneState \<Rightarrow> int \<Rightarrow> int \<Rightarrow> int \<Rightarrow> int \<Rightarrow> CellState \<Rightarrow> AbaloneState option"
where
  "ApplySingleMove_loop s r c dr dc nextId =
     (if r \<ge> 0 \<and> r < kNumRows \<and> c \<ge> 0 \<and> c < kNumCols then
        (if BoardAt s r c = kInvalid then Some s
         else if BoardAt s r c = kEmpty then Some (SetBoard s r c nextId)
         else ApplySingleMove_loop (SetBoard s r c nextId) (r + dr) (c + dc) dr dc (BoardAt s r c))
      else Some s)"

declare ApplySingleMove_loop.simps [code]

definition ApplySingleMove :: "Move \<Rightarrow> AbaloneState \<Rightarrow> int \<Rightarrow> int \<Rightarrow> error + AbaloneState" where
  "ApplySingleMove m s dr dc =
     (case ApplySingleMove_loop s (m_row (m_start m)) (m_column (m_start m)) dr dc kEmpty of
        None \<Rightarrow> Inl NonTermination
      | Some s' \<Rightarrow> Inr s')"

definition Apply :: "Move \<Rightarrow> AbaloneState \<Rightarrow> error + AbaloneState" where
  "Apply m s =
     (let offset = Offsets (m_direction m);
          vr = m_row (m_end m) - m_row (m_start m);
          vc = m_column (m_end m) - m_column (m_start m)
      in if m_row offset \<noteq> vr \<or> m_column offset \<noteq> vc
         then ApplyParallelMove m s (m_row offset) (m_column offset)
         else ApplySingleMove m s (m_row offset) (m_column offset))"

section \<open>The game state (AbaloneState)\<close>

text \<open>\<open>Returns\<close> yields a vector of two doubles. Its entries are \<open>1.0\<close>, \<open>-1.0\<close> or the
  product of the integer marble balance with the float constant \<open>0.1\<close>; the model keeps
  them as rationals, the product as \<open>balance / 10\<close>. The engine only ever compares an entry
  with \<open>1.0\<close>; in IEEE single precision the product equals \<open>1.0\<close> exactly when the
  balance is \<open>10\<close>, as the rational does. No theorem below depends on a value other than
  \<open>1.0\<close> and \<open>-1.0\<close>.\<close>

definition ballCount :: "AbaloneState \<Rightarrow> int \<times> int" where
  "ballCount s =
     fold (\<lambda>line cnt.
        fold (\<lambda>column cnt.
           (let slot = BoardAt s line column
            in if slot = kPlayer1 then (fst cnt + 1, snd cnt)
               else if slot = kPlayer2 then (fst cnt, snd cnt + 1)
               else cnt))
          [0..kNumCols - 1] cnt)
       [0..kNumRows - 1] (0, 0)"

definition Returns :: "AbaloneState \<Rightarrow> rat list" where
  "Returns s =
     (if outcome s \<noteq> kInvalidPlayer \<and> outcome s = 0 then [1, - 1]
      else if outcome s \<noteq> kInvalidPlayer \<and> outcome s = 1 then [- 1, 1]
      else
        (let cnt = ballCount s
         in if fst cnt \<le> 14 - kMarblesToWin then [- 1, 1]
            else if snd cnt \<le> 14 - kMarblesToWin then [1, - 1]
            else
              (let marble_balance = (14 - snd cnt) - (14 - fst cnt)
               in [of_int marble_balance / 10, - of_int marble_balance / 10])))"

text \<open>\<open>returns[current_player_]\<close> indexes a vector of two entries; another index is a read
  out of bounds.\<close>

definition DoApplyAction :: "AbaloneState \<Rightarrow> int \<Rightarrow> error + AbaloneState" where
  "DoApplyAction s action =
     (case ActionToMove action of
        Inl e \<Rightarrow> Inl e
      | Inr move \<Rightarrow>
         (case IsValid move s of
            Inl e \<Rightarrow> Inl e
          | Inr valid \<Rightarrow>
             if \<not> valid then Inr (s\<lparr>outcome := 1 - current_player s\<rparr>)
             else
               (case Apply move s of
                  Inl e \<Rightarrow> Inl e
                | Inr s1 \<Rightarrow>
                   if current_player s1 \<noteq> 0 \<and> current_player s1 \<noteq> 1
                   then Inl UndefinedBehaviour
                   else
                     (let returns = Returns s1;
                          s2 = (if returns ! nat (current_player s1) = 1
                                then s1\<lparr>outcome := current_player s1\<rparr> else s1)
                      in Inr (s2\<lparr>current_player := 1 - current_player s2,
                                 num_moves := num_moves s2 + 1\<rparr>)))))"

definition NewInitialState :: AbaloneState where
  \<comment> \<open>the constructor copies \<open>ABALONE_INIT_CLASSIC[r][c]\<close> to index \<open>r * 9 + c\<close>, row by row\<close>
  "NewInitialState =
     \<lparr>board = concat ABALONE_INIT_CLASSIC, current_player = 0,
      outcome = kInvalidPlayer, num_moves = 0\<rparr>"

inductive reachable :: "AbaloneState \<Rightarrow> bool" where
  reachable_init: "reachable NewInitialState"
| reachable_step: "reachable s \<Longrightarrow> DoApplyAction s a = Inr s' \<Longrightarrow> reachable s'"

section \<open>Notions of the specification\<close>

definition in_grid :: "int \<Rightarrow> int \<Rightarrow> bool" where
  "in_grid row column \<longleftrightarrow> 0 \<le> row \<and> row < kNumRows \<and> 0 \<le> column \<and> column < kNumCols"

definition is_marble :: "CellState \<Rightarrow> bool" where
  "is_marble x \<longleftrightarrow> x = kPlayer1 \<or> x = kPlayer2"

definition cell_at :: "AbaloneState \<Rightarrow> int \<Rightarrow> int \<Rightarrow> CellState" where
  \<comment> \<open>the content of a position; a position outside the grid reads as \<open>kInvalid\<close>\<close>
  "cell_at s row column = (if in_grid row column then BoardAt s row column else kInvalid)"

definition line_cell :: "AbaloneState \<Rightarrow> Move \<Rightarrow> int \<Rightarrow> CellState" where
  \<comment> \<open>position \<open>i\<close> of the line read from \<open>start\<close> along the direction of the move\<close>
  "line_cell s m i =
     cell_at s (m_row (m_start m) + i * m_row (Offsets (m_direction m)))
               (m_column (m_start m) + i * m_column (Offsets (m_direction m)))"

definition is_inline :: "Move \<Rightarrow> bool" where
  \<comment> \<open>\<open>end = start + offset(direction)\<close>; every other move is classified as a slide\<close>
  "is_inline m \<longleftrightarrow>
     m_row (m_end m) = m_row (m_start m) + m_row (Offsets (m_direction m)) \<and>
     m_column (m_end m) = m_column (m_start m) + m_column (Offsets (m_direction m))"

definition mover_at_start :: "AbaloneState \<Rightarrow> Move \<Rightarrow> bool" where
  \<comment> \<open>the start cell holds the marble of the player to move\<close>
  "mover_at_start s m \<longleftrightarrow>
     is_marble (BoardAt s (m_row (m_start m)) (m_column (m_start m))) \<and>
     PlayerToState (CurrentPlayer s) = Inr (BoardAt s (m_row (m_start m)) (m_column (m_start m)))"

definition opponent_of :: "CellState \<Rightarrow> CellState" where
  "opponent_of p = (if p = kPlayer1 then kPlayer2 else kPlayer1)"

definition inline_patterns :: "CellState \<Rightarrow> (int \<Rightarrow> CellState) \<Rightarrow> bool" where
  \<comment> \<open>the six legal patterns of the specification, \<open>l i\<close> being position \<open>i\<close> of the line\<close>
  "inline_patterns own l \<longleftrightarrow>
     l 1 = kEmpty
   \<or> (l 1 = own \<and> l 2 = kEmpty)
   \<or> (l 1 = own \<and> l 2 = opponent_of own \<and> (l 3 = kEmpty \<or> l 3 = kInvalid))
   \<or> (l 1 = own \<and> l 2 = own \<and> l 3 = kEmpty)
   \<or> (l 1 = own \<and> l 2 = own \<and> l 3 = opponent_of own \<and> (l 4 = kEmpty \<or> l 4 = kInvalid))
   \<or> (l 1 = own \<and> l 2 = own \<and> l 3 = opponent_of own \<and> l 4 = opponent_of own \<and>
        (l 5 = kEmpty \<or> l 5 = kInvalid))"

definition slide_step :: "Move \<Rightarrow> int \<times> int" where
  \<comment> \<open>the normalized unit step from \<open>start\<close> toward \<open>end\<close>\<close>
  "slide_step m =
     (max (min (m_row (m_end m) - m_row (m_start m)) 1) (- 1),
      max (min (m_column (m_end m) - m_column (m_start m)) 1) (- 1))"

definition slide_size :: "Move \<Rightarrow> int" where
  \<comment> \<open>the larger of the two line extents \<open>|\<Delta>row| + 1\<close> and \<open>|\<Delta>col| + 1\<close>\<close>
  "slide_size m =
     max (\<bar>m_column (m_end m) - m_column (m_start m)\<bar> + 1)
         (\<bar>m_row (m_end m) - m_row (m_start m)\<bar> + 1)"

definition slide_legal :: "AbaloneState \<Rightarrow> Move \<Rightarrow> bool" where
  \<comment> \<open>the slide rule of the specification: extents at most 3, the step is one of the six
     offsets, and every walked cell holds the mover's marble while its translation by the
     move direction is in the grid and empty\<close>
  "slide_legal s m \<longleftrightarrow>
     \<bar>m_row (m_end m) - m_row (m_start m)\<bar> + 1 \<le> 3 \<and>
     \<bar>m_column (m_end m) - m_column (m_start m)\<bar> + 1 \<le> 3 \<and>
     (\<exists>d \<in> set all_directions. (m_row (Offsets d), m_column (Offsets d)) = slide_step m) \<and>
     (\<forall>i \<in> {0 ..< slide_size m}.
        cell_at s (m_row (m_start m) + i * fst (slide_step m))
                  (m_column (m_start m) + i * snd (slide_step m))
          = BoardAt s (m_row (m_start m)) (m_column (m_start m)) \<and>
        in_grid (m_row (m_start m) + i * fst (slide_step m) + m_row (Offsets (m_direction m)))
                (m_column (m_start m) + i * snd (slide_step m)
                   + m_column (Offsets (m_direction m))) \<and>
        BoardAt s (m_row (m_start m) + i * fst (slide_step m) + m_row (Offsets (m_direction m)))
                  (m_column (m_start m) + i * snd (slide_step m)
                     + m_column (Offsets (m_direction m))) = kEmpty)"

definition marbles :: "AbaloneState \<Rightarrow> CellState \<Rightarrow> nat" where
  \<comment> \<open>how many cells of the board hold the given value\<close>
  "marbles s p = count_list (board s) p"

definition total_marbles :: "AbaloneState \<Rightarrow> nat" where
  "total_marbles s = marbles s kPlayer1 + marbles s kPlayer2"

definition run_length :: "AbaloneState \<Rightarrow> Move \<Rightarrow> nat" where
  \<comment> \<open>the length of the contiguous run of marbles that starts at \<open>start\<close> along the move
     direction; the position with this number is the one the front marble is pushed to\<close>
  "run_length s m = length (takeWhile (\<lambda>i. is_marble (line_cell s m (int i))) [0 ..< 10])"

definition well_formed :: "AbaloneState \<Rightarrow> bool" where
  \<comment> \<open>the board is an array of \<open>kNumCells\<close> cells\<close>
  "well_formed s \<longleftrightarrow> int (length (board s)) = kNumCells"

section \<open>Concrete positions\<close>

definition mkMove :: "Direction \<Rightarrow> int \<Rightarrow> int \<Rightarrow> int \<Rightarrow> int \<Rightarrow> Move" where
  \<comment> \<open>\<open>Move{dir, {r0, c0}, {r1, c1}}\<close>\<close>
  "mkMove d r0 c0 r1 c1 =
     \<lparr>m_direction = d, m_start = \<lparr>m_row = r0, m_column = c0\<rparr>,
      m_end = \<lparr>m_row = r1, m_column = c1\<rparr>\<rparr>"

definition empty_state :: AbaloneState where
  \<comment> \<open>the all-empty layout \<open>VALID_BOARD\<close>, player 0 to move\<close>
  "empty_state =
     \<lparr>board = concat VALID_BOARD, current_player = 0, outcome = kInvalidPlayer, num_moves = 0\<rparr>"

definition edge_push_state :: AbaloneState where
  \<comment> \<open>row "d": own marbles on d6 and d7, an opposing marble on d8, next to the invalid
     cell d9 of the grid\<close>
  "edge_push_state =
     SetBoard (SetBoard (SetBoard empty_state 5 5 kPlayer1) 5 6 kPlayer1) 5 7 kPlayer2"

definition edge_push_move :: Move where
  "edge_push_move = mkMove RIGHT 5 5 5 6"

definition bent_slide_state :: AbaloneState where
  \<comment> \<open>own marbles on f2, e1 and e9\<close>
  "bent_slide_state =
     SetBoard (SetBoard (SetBoard empty_state 3 1 kPlayer1) 4 0 kPlayer1) 4 8 kPlayer1"

definition bent_slide_move :: Move where
  \<comment> \<open>a slide to the right whose line runs from f2 to d1: \<open>end - start = (2, -1)\<close>\<close>
  "bent_slide_move = mkMove RIGHT 3 1 5 0"

text \<open>A game played from the classic layout: the eight legal plies with the action ids
  2016, 175, 1505, 445, 1982, 715, 2230 and 985. Plies 1 and 5 are slides of two marbles.
  Ply 8 is an in-line push by player 1 down column 5: the marbles on \<open>(3, 5)\<close>, \<open>(4, 5)\<close>
  and \<open>(5, 5)\<close> push the two marbles of player 0 on \<open>(6, 5)\<close> and \<open>(7, 5)\<close>, and the front
  one is moved onto the invalid cell \<open>(8, 5)\<close> of the grid, where it leaves the board.
  \<open>played_i\<close> is the state after ply \<open>i\<close>.\<close>

definition played_1 :: AbaloneState where
  "played_1 =
     \<lparr>board =
       [kInvalid, kInvalid, kInvalid, kInvalid, kPlayer2, kPlayer2, kPlayer2, kPlayer2, kPlayer2,
        kInvalid, kInvalid, kInvalid, kPlayer2, kPlayer2, kPlayer2, kPlayer2, kPlayer2, kPlayer2,
        kInvalid, kInvalid, kEmpty, kEmpty, kPlayer2, kPlayer2, kPlayer2, kEmpty, kEmpty,
        kInvalid, kEmpty, kEmpty, kEmpty, kEmpty, kEmpty, kEmpty, kEmpty, kEmpty,
        kEmpty, kEmpty, kEmpty, kEmpty, kEmpty, kEmpty, kEmpty, kEmpty, kEmpty,
        kEmpty, kEmpty, kEmpty, kEmpty, kEmpty, kPlayer1, kEmpty, kEmpty, kInvalid,
        kEmpty, kEmpty, kPlayer1, kPlayer1, kEmpty, kPlayer1, kEmpty, kInvalid, kInvalid,
        kPlayer1, kPlayer1, kPlayer1, kPlayer1, kEmpty, kPlayer1, kInvalid, kInvalid, kInvalid,
        kPlayer1, kPlayer1, kPlayer1, kPlayer1, kPlayer1, kInvalid, kInvalid, kInvalid, kInvalid],
      current_player = 1, outcome = kInvalidPlayer, num_moves = 1\<rparr>"

definition played_2 :: AbaloneState where
  "played_2 =
     \<lparr>board =
       [kInvalid, kInvalid, kInvalid, kInvalid, kPlayer2, kEmpty, kPlayer2, kPlayer2, kPlayer2,
        kInvalid, kInvalid, kInvalid, kPlayer2, kPlayer2, kPlayer2, kPlayer2, kPlayer2, kPlayer2,
        kInvalid, kInvalid, kEmpty, kEmpty, kPlayer2, kPlayer2, kPlayer2, kEmpty, kEmpty,
        kInvalid, kEmpty, kEmpty, kEmpty, kEmpty, kPlayer2, kEmpty, kEmpty, kEmpty,
        kEmpty, kEmpty, kEmpty, kEmpty, kEmpty, kEmpty, kEmpty, kEmpty, kEmpty,
        kEmpty, kEmpty, kEmpty, kEmpty, kEmpty, kPlayer1, kEmpty, kEmpty, kInvalid,
        kEmpty, kEmpty, kPlayer1, kPlayer1, kEmpty, kPlayer1, kEmpty, kInvalid, kInvalid,
        kPlayer1, kPlayer1, kPlayer1, kPlayer1, kEmpty, kPlayer1, kInvalid, kInvalid, kInvalid,
        kPlayer1, kPlayer1, kPlayer1, kPlayer1, kPlayer1, kInvalid, kInvalid, kInvalid, kInvalid],
      current_player = 0, outcome = kInvalidPlayer, num_moves = 2\<rparr>"

definition played_3 :: AbaloneState where
  "played_3 =
     \<lparr>board =
       [kInvalid, kInvalid, kInvalid, kInvalid, kPlayer2, kEmpty, kPlayer2, kPlayer2, kPlayer2,
        kInvalid, kInvalid, kInvalid, kPlayer2, kPlayer2, kPlayer2, kPlayer2, kPlayer2, kPlayer2,
        kInvalid, kInvalid, kEmpty, kEmpty, kPlayer2, kPlayer2, kPlayer2, kEmpty, kEmpty,
        kInvalid, kEmpty, kEmpty, kEmpty, kEmpty, kPlayer2, kEmpty, kEmpty, kEmpty,
        kEmpty, kEmpty, kEmpty, kEmpty, kEmpty, kEmpty, kPlayer1, kEmpty, kEmpty,
        kEmpty, kEmpty, kEmpty, kEmpty, kEmpty, kEmpty, kEmpty, kEmpty, kInvalid,
        kEmpty, kEmpty, kPlayer1, kPlayer1, kEmpty, kPlayer1, kEmpty, kInvalid, kInvalid,
        kPlayer1, kPlayer1, kPlayer1, kPlayer1, kEmpty, kPlayer1, kInvalid, kInvalid, kInvalid,
        kPlayer1, kPlayer1, kPlayer1, kPlayer1, kPlayer1, kInvalid, kInvalid, kInvalid, kInvalid],
      current_player = 1, outcome = kInvalidPlayer, num_moves = 3\<rparr>"

definition played_4 :: AbaloneState where
  "played_4 =
     \<lparr>board =
       [kInvalid, kInvalid, kInvalid, kInvalid, kPlayer2, kEmpty, kPlayer2, kPlayer2, kPlayer2,
        kInvalid, kInvalid, kInvalid, kPlayer2, kPlayer2, kEmpty, kPlayer2, kPlayer2, kPlayer2,
        kInvalid, kInvalid, kEmpty, kEmpty, kPlayer2, kPlayer2, kPlayer2, kEmpty, kEmpty,
        kInvalid, kEmpty, kEmpty, kEmpty, kEmpty, kPlayer2, kEmpty, kEmpty, kEmpty,
        kEmpty, kEmpty, kEmpty, kEmpty, kEmpty, kPlayer2, kPlayer1, kEmpty, kEmpty,
        kEmpty, kEmpty, kEmpty, kEmpty, kEmpty, kEmpty, kEmpty, kEmpty, kInvalid,
        kEmpty, kEmpty, kPlayer1, kPlayer1, kEmpty, kPlayer1, kEmpty, kInvalid, kInvalid,
        kPlayer1, kPlayer1, kPlayer1, kPlayer1, kEmpty, kPlayer1, kInvalid, kInvalid, kInvalid,
        kPlayer1, kPlayer1, kPlayer1, kPlayer1, kPlayer1, kInvalid, kInvalid, kInvalid, kInvalid],
      current_player = 0, outcome = kInvalidPlayer, num_moves = 4\<rparr>"

definition played_5 :: AbaloneState where
  "played_5 =
     \<lparr>board =
       [kInvalid, kInvalid, kInvalid, kInvalid, kPlayer2, kEmpty, kPlayer2, kPlayer2, kPlayer2,
        kInvalid, kInvalid, kInvalid, kPlayer2, kPlayer2, kEmpty, kPlayer2, kPlayer2, kPlayer2,
        kInvalid, kInvalid, kEmpty, kEmpty, kPlayer2, kPlayer2, kPlayer2, kEmpty, kEmpty,
        kInvalid, kEmpty, kEmpty, kEmpty, kEmpty, kPlayer2, kEmpty, kEmpty, kEmpty,
        kEmpty, kEmpty, kEmpty, kEmpty, kEmpty, kPlayer2, kPlayer1, kEmpty, kEmpty,
        kEmpty, kEmpty, kEmpty, kEmpty, kEmpty, kEmpty, kEmpty, kEmpty, kInvalid,
        kEmpty, kEmpty, kPlayer1, kEmpty, kPlayer1, kPlayer1, kEmpty, kInvalid, kInvalid,
        kPlayer1, kPlayer1, kPlayer1, kEmpty, kPlayer1, kPlayer1, kInvalid, kInvalid, kInvalid,
        kPlayer1, kPlayer1, kPlayer1, kPlayer1, kPlayer1, kInvalid, kInvalid, kInvalid, kInvalid],
      current_player = 1, outcome = kInvalidPlayer, num_moves = 5\<rparr>"

definition played_6 :: AbaloneState where
  "played_6 =
     \<lparr>board =
       [kInvalid, kInvalid, kInvalid, kInvalid, kPlayer2, kEmpty, kPlayer2, kPlayer2, kPlayer2,
        kInvalid, kInvalid, kInvalid, kPlayer2, kPlayer2, kEmpty, kPlayer2, kPlayer2, kPlayer2,
        kInvalid, kInvalid, kEmpty, kEmpty, kPlayer2, kEmpty, kPlayer2, kEmpty, kEmpty,
        kInvalid, kEmpty, kEmpty, kEmpty, kEmpty, kPlayer2, kEmpty, kEmpty, kEmpty,
        kEmpty, kEmpty, kEmpty, kEmpty, kEmpty, kPlayer2, kPlayer1, kEmpty, kEmpty,
        kEmpty, kEmpty, kEmpty, kEmpty, kEmpty, kPlayer2, kEmpty, kEmpty, kInvalid,
        kEmpty, kEmpty, kPlayer1, kEmpty, kPlayer1, kPlayer1, kEmpty, kInvalid, kInvalid,
        kPlayer1, kPlayer1, kPlayer1, kEmpty, kPlayer1, kPlayer1, kInvalid, kInvalid, kInvalid,
        kPlayer1, kPlayer1, kPlayer1, kPlayer1, kPlayer1, kInvalid, kInvalid, kInvalid, kInvalid],
      current_player = 0, outcome = kInvalidPlayer, num_moves = 6\<rparr>"

definition played_7 :: AbaloneState where
  "played_7 =
     \<lparr>board =
       [kInvalid, kInvalid, kInvalid, kInvalid, kPlayer2, kEmpty, kPlayer2, kPlayer2, kPlayer2,
        kInvalid, kInvalid, kInvalid, kPlayer2, kPlayer2, kEmpty, kPlayer2, kPlayer2, kPlayer2,
        kInvalid, kInvalid, kEmpty, kEmpty, kPlayer2, kEmpty, kPlayer2, kEmpty, kEmpty,
        kInvalid, kEmpty, kEmpty, kEmpty, kEmpty, kPlayer2, kEmpty, kEmpty, kEmpty,
        kEmpty, kEmpty, kEmpty, kEmpty, kEmpty, kPlayer2, kPlayer1, kEmpty, kEmpty,
        kEmpty, kEmpty, kPlayer1, kEmpty, kEmpty, kPlayer2, kEmpty, kEmpty, kInvalid,
        kEmpty, kEmpty, kPlayer1, kEmpty, kPlayer1, kPlayer1, kEmpty, kInvalid, kInvalid,
        kPlayer1, kPlayer1, kPlayer1, kEmpty, kPlayer1, kPlayer1, kInvalid, kInvalid, kInvalid,
        kPlayer1, kPlayer1, kEmpty, kPlayer1, kPlayer1, kInvalid, kInvalid, kInvalid, kInvalid],
      current_player = 1, outcome = kInvalidPlayer, num_moves = 7\<rparr>"

definition played_8 :: AbaloneState where
  "played_8 =
     \<lparr>board =
       [kInvalid, kInvalid, kInvalid, kInvalid, kPlayer2, kEmpty, kPlayer2, kPlayer2, kPlayer2,
        kInvalid, kInvalid, kInvalid, kPlayer2, kPlayer2, kEmpty, kPlayer2, kPlayer2, kPlayer2,
        kInvalid, kInvalid, kEmpty, kEmpty, kPlayer2, kEmpty, kPlayer2, kEmpty, kEmpty,
        kInvalid, kEmpty, kEmpty, kEmpty, kEmpty, kEmpty, kEmpty, kEmpty, kEmpty,
        kEmpty, kEmpty, kEmpty, kEmpty, kEmpty, kPlayer2, kPlayer1, kEmpty, kEmpty,
        kEmpty, kEmpty, kPlayer1, kEmpty, kEmpty, kPlayer2, kEmpty, kEmpty, kInvalid,
        kEmpty, kEmpty, kPlayer1, kEmpty, kPlayer1, kPlayer2, kEmpty, kInvalid, kInvalid,
        kPlayer1, kPlayer1, kPlayer1, kEmpty, kPlayer1, kPlayer1, kInvalid, kInvalid, kInvalid,
        kPlayer1, kPlayer1, kEmpty, kPlayer1, kPlayer1, kInvalid, kInvalid, kInvalid, kInvalid],
      current_player = 0, outcome = kInvalidPlayer, num_moves = 8\<rparr>"

section \<open>Auxiliary notions for the in-line walk\<close>

text \<open>\<open>tally\<close> is the body of the counting loop of \<open>Returns\<close>.\<close>

definition tally :: "CellState \<Rightarrow> int \<times> int \<Rightarrow> int \<times> int" where
  "tally slot cnt =
     (if slot = kPlayer1 then (fst cnt + 1, snd cnt)
      else if slot = kPlayer2 then (fst cnt, snd cnt + 1)
      else cnt)"


text \<open>\<open>marble_run s r c dr dc k\<close>: walking from \<open>(r, c)\<close> by \<open>(dr, dc)\<close>, the positions
  \<open>0 .. k - 1\<close> hold marbles and position \<open>k\<close> does not. \<open>push_run\<close> is the walk of
  \<open>_ApplySingleMove\<close> over such a run, unfolded \<open>k\<close> times.\<close>

fun push_run ::
  "AbaloneState \<Rightarrow> nat \<Rightarrow> int \<Rightarrow> int \<Rightarrow> int \<Rightarrow> int \<Rightarrow> CellState \<Rightarrow> AbaloneState" where
  "push_run s 0 r c dr dc x = (if cell_at s r c = kEmpty then SetBoard s r c x else s)"
| "push_run s (Suc k) r c dr dc x = push_run (SetBoard s r c x) k (r + dr) (c + dc) dr dc (BoardAt s r c)"

definition marble_run :: "AbaloneState \<Rightarrow> int \<Rightarrow> int \<Rightarrow> int \<Rightarrow> int \<Rightarrow> nat \<Rightarrow> bool" where
  "marble_run s r c dr dc k \<longleftrightarrow>
     (\<forall>j<k. is_marble (cell_at s (r + int j * dr) (c + int j * dc))) \<and>
     \<not> is_marble (cell_at s (r + int k * dr) (c + int k * dc))"

section \<open>The codec is a bijection on the action space\<close>

lemma c_mod_nonneg: "0 \<le> a \<Longrightarrow> 0 < b \<Longrightarrow> c_mod a b = a mod b"
  by (cases "a = 0") (simp_all add: c_mod_def)

lemma c_div_nonneg: "0 \<le> a \<Longrightarrow> 0 < b \<Longrightarrow> c_div a b = a div b"
  by (cases "a = 0") (simp_all add: c_div_def)

lemma narrow_int_small: "- 2 \<le> x \<Longrightarrow> x < 11 \<Longrightarrow> narrow_int x = x"
  by (simp add: narrow_int_def)

text \<open>For a non-negative id the truncating operations are the usual ones and the decoder
  reads the four fields off the id.\<close>

lemma decode_fields:
  assumes "0 \<le> a"
  shows "ActionToMove a =
     (case Direction_cast (a div 5 mod 6) of
           None \<Rightarrow> Inl UndefinedBehaviour
         | Some dir \<Rightarrow>
            (let offset = Offsets dir;
                 start = \<lparr>m_row = narrow_int (a div 270), m_column = narrow_int (a div 30 mod 9)\<rparr>;
                 mk = (\<lambda>k slide. Inr \<lparr>m_direction = dir, m_start = start,
                         m_end = \<lparr>m_row = narrow_int (a div 270 + k * m_row slide),
                                  m_column = narrow_int (a div 30 mod 9 + k * m_column slide)\<rparr>\<rparr>)
             in if a mod 5 = 0 then mk 1 offset
                else if a mod 5 = 1 then
                  (case Offsets_at ((Direction_value dir + 1) mod 6) of
                     None \<Rightarrow> Inl UndefinedBehaviour | Some slide \<Rightarrow> mk 1 slide)
                else if a mod 5 = 2 then
                  (case Offsets_at ((Direction_value dir + 2) mod 6) of
                     None \<Rightarrow> Inl UndefinedBehaviour | Some slide \<Rightarrow> mk 1 slide)
                else if a mod 5 = 3 then
                  (case Offsets_at ((Direction_value dir + 1) mod 6) of
                     None \<Rightarrow> Inl UndefinedBehaviour | Some slide \<Rightarrow> mk 2 slide)
                else
                  (case Offsets_at ((Direction_value dir + 2) mod 6) of
                     None \<Rightarrow> Inl UndefinedBehaviour | Some slide \<Rightarrow> mk 2 slide)))"
proof -
  have q1: "0 \<le> a div 5" using assms by simp
  have e1: "a div 5 div 6 = a div 30" by (simp add: div_mult2_eq[symmetric])
  have e2: "a div 30 div 9 = a div 270" by (simp add: div_mult2_eq[symmetric])
  have q3: "0 \<le> a div 30" using assms by simp
  have dv: "\<And>d. 0 \<le> Direction_value d + 1" "\<And>d. 0 \<le> Direction_value d + 2"
    subgoal for d by (cases d) simp_all
    subgoal for d by (cases d) simp_all
    done
  have m5: "a mod 5 = 0 \<or> a mod 5 = 1 \<or> a mod 5 = 2 \<or> a mod 5 = 3 \<or> a mod 5 = 4"
    by presburger
  show ?thesis
    using m5
    by (auto simp add: ActionToMove_def Let_def kNumActionsPerDirection_def Direction_Last_def
        kNumCols_def c_mod_nonneg assms c_div_nonneg q1 q3 e1 e2 dv split: option.splits)
qed

lemma action_decomposition:
  "(a::int) = ((a div 270 * 9 + a div 30 mod 9) * 6 + a div 5 mod 6) * 5 + a mod 5"
proof -
  have "a div 30 = a div 5 div 6" by (simp add: div_mult2_eq[symmetric])
  moreover have "a div 270 = a div 30 div 9" by (simp add: div_mult2_eq[symmetric])
  ultimately show ?thesis by (simp add: algebra_simps)
qed

lemma decode_encode:
  assumes "0 \<le> a" "a < 2430"
  shows "\<exists>m. ActionToMove a = Inr m \<and> MoveToAction m = a"
proof -
  define t where "t = a mod 5"
  define d where "d = a div 5 mod 6"
  define col where "col = a div 30 mod 9"
  define row where "row = a div 270"
  have a: "a = ((row * 9 + col) * 6 + d) * 5 + t"
    unfolding t_def d_def col_def row_def by (rule action_decomposition)
  have r: "0 \<le> row" "row < 9" using assms unfolding row_def by arith+
  have c: "0 \<le> col" "col < 9" unfolding col_def by simp_all
  have dd: "d = 0 \<or> d = 1 \<or> d = 2 \<or> d = 3 \<or> d = 4 \<or> d = 5" unfolding d_def by arith
  have tt: "t = 0 \<or> t = 1 \<or> t = 2 \<or> t = 3 \<or> t = 4" unfolding t_def by arith
  have "\<exists>m. ActionToMove a = Inr m \<and> MoveToAction m = ((row * 9 + col) * 6 + d) * 5 + t"
    unfolding decode_fields[OF assms(1)] t_def[symmetric] d_def[symmetric]
      col_def[symmetric] row_def[symmetric]
    using dd tt r c
    apply (elim disjE)
    apply (simp_all add: Direction_cast_def Offsets_at_def Offsets_def narrow_int_small
        MoveToAction_def Sisters_def kNumCols_def Direction_Last_def)
    done
  then show ?thesis using a by simp
qed

text \<open>
  Claim C1. For every action id \<open>a\<close> of the action space \<open>[0, rows * cols * 6 * 5)\<close> the
  decoder returns a move \<open>m\<close>, encoding \<open>m\<close> gives \<open>a\<close> back, and decoding the encoding of
  \<open>m\<close> gives \<open>m\<close> back: the two round trips of the codec.
\<close>

theorem codec_round_trip:
  assumes "0 \<le> a" and "a < kNumCells * kNumActionsPerCell"
  shows "\<exists>m. ActionToMove a = Inr m \<and> MoveToAction m = a
            \<and> ActionToMove (MoveToAction m) = Inr m"
proof -
  have "a < 2430"
    using assms(2)
    by (simp add: kNumCells_def kNumActionsPerCell_def kNumRows_def kNumCols_def
        Direction_Last_def kNumActionsPerDirection_def)
  with assms(1) obtain m where "ActionToMove a = Inr m" "MoveToAction m = a"
    using decode_encode by blast
  then show ?thesis by auto
qed

theorem codec_round_trip_witness:
  "(0::int) \<le> 1234 \<and> 1234 < kNumCells * kNumActionsPerCell \<and>
   (\<exists>m. ActionToMove 1234 = Inr m \<and> MoveToAction m = 1234
        \<and> ActionToMove (MoveToAction m) = Inr m)"
proof -
  have h: "(1234::int) < kNumCells * kNumActionsPerCell"
    by (simp add: kNumCells_def kNumActionsPerCell_def kNumRows_def kNumCols_def
        Direction_Last_def kNumActionsPerDirection_def)
  show ?thesis using h codec_round_trip [of 1234] by simp
qed

section \<open>Legality of in-line moves\<close>

lemma line_content_loop_6:
  "line_content_loop s 6 r c vr vc =
     [cell_at s r c, cell_at s (r + 1 * vr) (c + 1 * vc), cell_at s (r + 2 * vr) (c + 2 * vc),
      cell_at s (r + 3 * vr) (c + 3 * vc), cell_at s (r + 4 * vr) (c + 4 * vc),
      cell_at s (r + 5 * vr) (c + 5 * vc)]"
proof -
  have six: "(6::nat) = Suc (Suc (Suc (Suc (Suc (Suc 0)))))" by simp
  have a: "\<And>r x. r + x + x = r + 2 * (x::int)" "\<And>r x. r + 2 * x + x = r + 3 * (x::int)"
    "\<And>r x. r + 3 * x + x = r + 4 * (x::int)" "\<And>r x. r + 4 * x + x = r + 5 * (x::int)"
    by simp_all
  show ?thesis
    unfolding six line_content_loop.simps
    by (simp add: cell_at_def in_grid_def a)
qed

lemma IsValid_inline:
  assumes st: "in_grid (m_row (m_start m)) (m_column (m_start m))"
    and en: "in_grid (m_row (m_end m)) (m_column (m_end m))"
    and mv: "mover_at_start s m"
    and il: "is_inline m"
  shows "IsValid m s =
     Inr (inline_patterns (BoardAt s (m_row (m_start m)) (m_column (m_start m))) (line_cell s m))"
proof -
  define own where "own = BoardAt s (m_row (m_start m)) (m_column (m_start m))"
  have p: "PlayerToState (CurrentPlayer s) = Inr own"
    using mv by (simp add: mover_at_start_def own_def)
  have v: "m_row (m_end m) - m_row (m_start m) = m_row (Offsets (m_direction m))"
          "m_column (m_end m) - m_column (m_start m) = m_column (Offsets (m_direction m))"
    using il by (simp_all add: is_inline_def)
  have b: "\<not> (m_row (m_start m) < 0 \<or> m_row (m_start m) \<ge> kNumRows)"
    "\<not> (m_column (m_start m) < 0 \<or> m_column (m_start m) \<ge> kNumCols)"
    "\<not> (m_row (m_end m) < 0 \<or> m_row (m_end m) \<ge> kNumRows)"
    "\<not> (m_column (m_end m) < 0 \<or> m_column (m_end m) \<ge> kNumCols)"
    using st en by (auto simp: in_grid_def)
  show ?thesis
    unfolding IsValid_def Let_def own_def[symmetric]
    apply (simp only: b if_False p sum.case v line_content_loop_6)
    apply (simp add: inline_patterns_def line_cell_def opponent_of_def)
    apply blast
    done
qed

text \<open>
  Claim C2. For a move whose endpoints lie in the grid, whose start cell holds the marble of
  the player to move and whose end is the start plus the unit offset of its direction,
  \<open>IsValid\<close> returns true exactly when the line read from the start along the direction
  (positions outside the grid reading as invalid) matches one of the six patterns. In
  particular two own marbles push one opposing marble into an empty or invalid position,
  and two own marbles against two opposing marbles are rejected.
\<close>

theorem IsValid_inline_patterns:
  assumes "in_grid (m_row (m_start m)) (m_column (m_start m))"
    and "in_grid (m_row (m_end m)) (m_column (m_end m))"
    and "mover_at_start s m"
    and "is_inline m"
    and "own = BoardAt s (m_row (m_start m)) (m_column (m_start m))"
  shows "IsValid m s = Inr (inline_patterns own (line_cell s m))
    \<and> (line_cell s m 1 = own \<and> line_cell s m 2 = opponent_of own \<and>
         (line_cell s m 3 = kEmpty \<or> line_cell s m 3 = kInvalid) \<longrightarrow> IsValid m s = Inr True)
    \<and> (line_cell s m 1 = own \<and> line_cell s m 2 = opponent_of own \<and>
         line_cell s m 3 = opponent_of own \<longrightarrow> IsValid m s = Inr False)"
proof -
  have v: "IsValid m s = Inr (inline_patterns own (line_cell s m))"
    using IsValid_inline [OF assms(1-4)] assms(5) by simp
  have own: "own = kPlayer1 \<or> own = kPlayer2"
    using assms(3,5) by (simp add: mover_at_start_def is_marble_def)
  have push: "line_cell s m 1 = own \<and> line_cell s m 2 = opponent_of own \<and>
         (line_cell s m 3 = kEmpty \<or> line_cell s m 3 = kInvalid)
      \<longrightarrow> inline_patterns own (line_cell s m)"
    by (auto simp: inline_patterns_def)
  have rej: "line_cell s m 1 = own \<and> line_cell s m 2 = opponent_of own \<and>
         line_cell s m 3 = opponent_of own \<longrightarrow> \<not> inline_patterns own (line_cell s m)"
    using own by (auto simp: inline_patterns_def opponent_of_def)
  show ?thesis using v push rej by simp
qed

lemma edge_push_board:
  "board edge_push_state =
    [kInvalid, kInvalid, kInvalid, kInvalid, kEmpty, kEmpty, kEmpty, kEmpty, kEmpty,
     kInvalid, kInvalid, kInvalid, kEmpty, kEmpty, kEmpty, kEmpty, kEmpty, kEmpty,
     kInvalid, kInvalid, kEmpty, kEmpty, kEmpty, kEmpty, kEmpty, kEmpty, kEmpty,
     kInvalid, kEmpty, kEmpty, kEmpty, kEmpty, kEmpty, kEmpty, kEmpty, kEmpty,
     kEmpty, kEmpty, kEmpty, kEmpty, kEmpty, kEmpty, kEmpty, kEmpty, kEmpty,
     kEmpty, kEmpty, kEmpty, kEmpty, kEmpty, kPlayer1, kPlayer1, kPlayer2, kInvalid,
     kEmpty, kEmpty, kEmpty, kEmpty, kEmpty, kEmpty, kEmpty, kInvalid, kInvalid,
     kEmpty, kEmpty, kEmpty, kEmpty, kEmpty, kEmpty, kInvalid, kInvalid, kInvalid,
     kEmpty, kEmpty, kEmpty, kEmpty, kEmpty, kInvalid, kInvalid, kInvalid, kInvalid]"
  by (simp add: edge_push_state_def empty_state_def SetBoard_def VALID_BOARD_def kNumCols_def)

lemma edge_push_fields:
  "current_player edge_push_state = 0" "outcome edge_push_state = kInvalidPlayer"
  "num_moves edge_push_state = 0"
  by (simp_all add: edge_push_state_def empty_state_def SetBoard_def)

lemma edge_push_mover: "mover_at_start edge_push_state edge_push_move"
  by (simp add: mover_at_start_def edge_push_move_def mkMove_def BoardAt_def edge_push_board
      kNumCols_def is_marble_def CurrentPlayer_def IsTerminal_def edge_push_fields
      kInvalidPlayer_def kHistoryMax_def PlayerToState_def)

lemma edge_push_inline: "is_inline edge_push_move"
  by (simp add: is_inline_def edge_push_move_def mkMove_def Offsets_def)

lemma edge_push_line:
  "line_cell edge_push_state edge_push_move 0 = kPlayer1"
  "line_cell edge_push_state edge_push_move 1 = kPlayer1"
  "line_cell edge_push_state edge_push_move 2 = kPlayer2"
  "line_cell edge_push_state edge_push_move 3 = kInvalid"
  by (simp_all add: line_cell_def cell_at_def in_grid_def edge_push_move_def mkMove_def
      BoardAt_def edge_push_board kNumCols_def kNumRows_def Offsets_def)

theorem IsValid_inline_patterns_witness:
  "in_grid 5 5 \<and> in_grid 5 6 \<and> mover_at_start edge_push_state edge_push_move \<and>
   is_inline edge_push_move \<and> kPlayer1 = BoardAt edge_push_state 5 5 \<and>
   line_cell edge_push_state edge_push_move 1 = kPlayer1 \<and>
   line_cell edge_push_state edge_push_move 2 = opponent_of kPlayer1 \<and>
   line_cell edge_push_state edge_push_move 3 = kInvalid \<and>
   IsValid edge_push_move edge_push_state = Inr True"
proof -
  have a: "in_grid 5 5" "in_grid 5 6" by (simp_all add: in_grid_def kNumRows_def kNumCols_def)
  have o: "kPlayer1 = BoardAt edge_push_state 5 5"
    by (simp add: BoardAt_def edge_push_board kNumCols_def)
  have m: "m_row (m_start edge_push_move) = 5" "m_column (m_start edge_push_move) = 5"
    "m_row (m_end edge_push_move) = 5" "m_column (m_end edge_push_move) = 6"
    by (simp_all add: edge_push_move_def mkMove_def)
  show ?thesis
    using a o edge_push_mover edge_push_inline edge_push_line
      IsValid_inline_patterns [of edge_push_move edge_push_state kPlayer1]
    by (simp add: m opponent_of_def inline_patterns_def)
qed

section \<open>Board accesses\<close>

lemma count_list_update:
  "i < length xs \<Longrightarrow>
   count_list (xs[i := v]) p + (if xs ! i = p then 1 else 0)
     = count_list xs p + (if v = p then 1 else 0)"
proof (induction xs arbitrary: i)
  case Nil
  then show ?case by simp
next
  case (Cons a xs)
  show ?case
  proof (cases i)
    case 0
    then show ?thesis by simp
  next
    case (Suc n)
    then have "n < length xs" using Cons.prems by simp
    from Cons.IH [OF this] show ?thesis using Suc by (auto split: if_splits)
  qed
qed

lemma in_grid_index: "in_grid r c \<Longrightarrow> nat (r * kNumCols + c) < 81"
  by (auto simp: in_grid_def kNumRows_def kNumCols_def)

lemma in_grid_index_inj:
  "in_grid r c \<Longrightarrow> in_grid r' c' \<Longrightarrow> nat (r * kNumCols + c) = nat (r' * kNumCols + c')
    \<Longrightarrow> r = r' \<and> c = c'"
proof -
  assume a: "in_grid r c" "in_grid r' c'" "nat (r * kNumCols + c) = nat (r' * kNumCols + c')"
  have "0 \<le> r * 9 + c" "0 \<le> r' * 9 + c'"
    using a(1,2) by (simp_all add: in_grid_def)
  then have "r * 9 + c = r' * 9 + c'"
    using a(3) by (simp add: kNumCols_def)
  moreover have "0 \<le> c" "c < 9" "0 \<le> c'" "c' < 9"
    using a(1,2) by (simp_all add: in_grid_def kNumCols_def)
  ultimately show ?thesis by arith
qed

lemma well_formed_length: "well_formed s \<longleftrightarrow> length (board s) = 81"
  by (auto simp: well_formed_def kNumCells_def kNumRows_def kNumCols_def)

lemma SetBoard_fields [simp]:
  "current_player (SetBoard s r c v) = current_player s"
  "outcome (SetBoard s r c v) = outcome s"
  "num_moves (SetBoard s r c v) = num_moves s"
  "well_formed (SetBoard s r c v) = well_formed s"
  by (simp_all add: SetBoard_def well_formed_def)

lemma BoardAt_SetBoard_same:
  "well_formed s \<Longrightarrow> in_grid r c \<Longrightarrow> BoardAt (SetBoard s r c v) r c = v"
  using in_grid_index [of r c] by (simp add: BoardAt_def SetBoard_def well_formed_length)

lemma BoardAt_SetBoard_other:
  "in_grid r c \<Longrightarrow> in_grid r' c' \<Longrightarrow> (r, c) \<noteq> (r', c')
    \<Longrightarrow> BoardAt (SetBoard s r c v) r' c' = BoardAt s r' c'"
proof -
  assume "in_grid r c" "in_grid r' c'" "(r, c) \<noteq> (r', c')"
  then have "nat (r * kNumCols + c) \<noteq> nat (r' * kNumCols + c')"
    using in_grid_index_inj [of r c r' c'] by auto
  then show ?thesis by (simp add: BoardAt_def SetBoard_def)
qed

lemma cell_at_SetBoard_other:
  "in_grid r c \<Longrightarrow> (r, c) \<noteq> (r', c')
    \<Longrightarrow> cell_at (SetBoard s r c v) r' c' = cell_at s r' c'"
  by (simp add: cell_at_def BoardAt_SetBoard_other)

lemma marbles_SetBoard:
  "well_formed s \<Longrightarrow> in_grid r c \<Longrightarrow>
   marbles (SetBoard s r c v) p + (if BoardAt s r c = p then 1 else 0)
     = marbles s p + (if v = p then 1 else 0)"
  using in_grid_index [of r c] count_list_update [of "nat (r * kNumCols + c)" "board s" v p]
  by (simp add: marbles_def SetBoard_def BoardAt_def well_formed_length)

lemma is_marble_cell_at: "is_marble (cell_at s r c) \<Longrightarrow> in_grid r c \<and> is_marble (BoardAt s r c)"
  by (auto simp: cell_at_def is_marble_def split: if_splits)

lemma not_marble_cases: "\<not> is_marble x \<longleftrightarrow> x = kEmpty \<or> x = kInvalid"
  by (cases x) (auto simp: is_marble_def)

lemma ApplySingleMove_loop_stop:
  "cell_at s r c = kInvalid \<Longrightarrow> ApplySingleMove_loop s r c dr dc x = Some s"
  by (subst ApplySingleMove_loop.simps) (auto simp: cell_at_def in_grid_def)

lemma ApplySingleMove_loop_empty:
  "cell_at s r c = kEmpty \<Longrightarrow> ApplySingleMove_loop s r c dr dc x = Some (SetBoard s r c x)"
  by (subst ApplySingleMove_loop.simps) (auto simp: cell_at_def in_grid_def split: if_splits)

lemma ApplySingleMove_loop_marble:
  "is_marble (cell_at s r c) \<Longrightarrow>
   ApplySingleMove_loop s r c dr dc x =
     ApplySingleMove_loop (SetBoard s r c x) (r + dr) (c + dc) dr dc (BoardAt s r c)"
  by (subst ApplySingleMove_loop.simps) (auto simp: cell_at_def in_grid_def is_marble_def split: if_splits)

lemma marble_run_0: "marble_run s r c dr dc 0 \<longleftrightarrow> \<not> is_marble (cell_at s r c)"
  by (simp add: marble_run_def)

lemma marble_run_Suc:
  assumes nz: "dr \<noteq> 0 \<or> dc \<noteq> 0" and run: "marble_run s r c dr dc (Suc k)"
  shows "is_marble (cell_at s r c)" "in_grid r c"
    "marble_run (SetBoard s r c x) (r + dr) (c + dc) dr dc k"
    "\<And>j. cell_at (SetBoard s r c x) (r + dr + int j * dr) (c + dc + int j * dc)
          = cell_at s (r + int (Suc j) * dr) (c + int (Suc j) * dc)"
proof -
  show m: "is_marble (cell_at s r c)"
    using run unfolding marble_run_def by (auto dest: spec [of _ 0])
  then show g: "in_grid r c" using is_marble_cell_at by blast
  show e: "cell_at (SetBoard s r c x) (r + dr + int j * dr) (c + dc + int j * dc)
          = cell_at s (r + int (Suc j) * dr) (c + int (Suc j) * dc)" for j
  proof -
    have "(r, c) \<noteq> (r + dr + int j * dr, c + dc + int j * dc)"
    proof
      assume "(r, c) = (r + dr + int j * dr, c + dc + int j * dc)"
      then have "(1 + int j) * dr = 0" "(1 + int j) * dc = 0" by (simp_all add: algebra_simps)
      then show False using nz by auto
    qed
    then show ?thesis using cell_at_SetBoard_other [OF g] by (simp add: algebra_simps)
  qed
  show "marble_run (SetBoard s r c x) (r + dr) (c + dc) dr dc k"
    unfolding marble_run_def e
    using run unfolding marble_run_def by auto
qed

lemma ApplySingleMove_loop_run:
  assumes "dr \<noteq> 0 \<or> dc \<noteq> 0" and "marble_run s r c dr dc k"
  shows "ApplySingleMove_loop s r c dr dc x = Some (push_run s k r c dr dc x)"
  using assms(2)
proof (induction k arbitrary: s r c x)
  case 0
  then have "cell_at s r c = kEmpty \<or> cell_at s r c = kInvalid"
    by (simp add: marble_run_0 not_marble_cases)
  then show ?case
    using ApplySingleMove_loop_stop ApplySingleMove_loop_empty by auto
next
  case (Suc k)
  note f = marble_run_Suc [OF assms(1) Suc.prems]
  show ?case
    using ApplySingleMove_loop_marble [OF f(1)] Suc.IH [OF f(3)] by simp
qed

lemma marble_run_exists:
  assumes "dr \<noteq> 0 \<or> dc \<noteq> 0"
  shows "\<exists>k. marble_run s r c dr dc k"
proof -
  have "\<exists>j. \<not> is_marble (cell_at s (r + int j * dr) (c + int j * dc))"
  proof (cases "in_grid r c")
    case True
    then have "\<not> in_grid (r + int 9 * dr) (c + int 9 * dc)"
      using assms by (auto simp: in_grid_def kNumRows_def kNumCols_def)
    then have "\<not> is_marble (cell_at s (r + int 9 * dr) (c + int 9 * dc))"
      by (simp add: cell_at_def is_marble_def)
    then show ?thesis by blast
  next
    case False
    then have "\<not> is_marble (cell_at s (r + int 0 * dr) (c + int 0 * dc))"
      by (simp add: cell_at_def is_marble_def)
    then show ?thesis by blast
  qed
  then obtain j where j: "\<not> is_marble (cell_at s (r + int j * dr) (c + int j * dc))" ..
  define k where "k = (LEAST j. \<not> is_marble (cell_at s (r + int j * dr) (c + int j * dc)))"
  have "\<not> is_marble (cell_at s (r + int k * dr) (c + int k * dc))"
    unfolding k_def using j by (rule LeastI)
  moreover have "\<forall>i<k. is_marble (cell_at s (r + int i * dr) (c + int i * dc))"
    unfolding k_def using not_less_Least by blast
  ultimately show ?thesis unfolding marble_run_def by blast
qed

lemma push_run_fields:
  "current_player (push_run s k r c dr dc x) = current_player s \<and>
   outcome (push_run s k r c dr dc x) = outcome s \<and>
   num_moves (push_run s k r c dr dc x) = num_moves s \<and>
   well_formed (push_run s k r c dr dc x) = well_formed s"
  by (induction k arbitrary: s r c x) auto

lemma push_run_invalid:
  assumes nz: "dr \<noteq> 0 \<or> dc \<noteq> 0"
  shows "marble_run s r c dr dc k \<Longrightarrow> in_grid r' c' \<Longrightarrow> BoardAt s r' c' = kInvalid
    \<Longrightarrow> BoardAt (push_run s k r c dr dc x) r' c' = kInvalid"
proof (induction k arbitrary: s r c x)
  case 0
  show ?case
  proof (cases "cell_at s r c = kEmpty")
    case True
    then have g: "in_grid r c" "BoardAt s r c = kEmpty"
      by (auto simp: cell_at_def split: if_splits)
    then have "(r, c) \<noteq> (r', c')" using 0(3) by auto
    then show ?thesis
      using True BoardAt_SetBoard_other [OF g(1) 0(2)] 0(3) by simp
  next
    case False
    then show ?thesis using 0(3) by simp
  qed
next
  case (Suc k)
  note f = marble_run_Suc [OF nz Suc.prems(1)]
  have "(r, c) \<noteq> (r', c')"
    using f(1) Suc.prems(2,3) by (auto simp: cell_at_def is_marble_def)
  then have "BoardAt (SetBoard s r c x) r' c' = kInvalid"
    using BoardAt_SetBoard_other [OF f(2) Suc.prems(2)] Suc.prems(3) by simp
  then show ?case
    using Suc.IH [OF f(3) Suc.prems(2)] by simp
qed

lemma push_run_marbles:
  assumes nz: "dr \<noteq> 0 \<or> dc \<noteq> 0" and p: "is_marble p"
  shows "well_formed s \<Longrightarrow> marble_run s r c dr dc k \<Longrightarrow>
     marbles (push_run s k r c dr dc x) p
       + (if cell_at s (r + int k * dr) (c + int k * dc) = kInvalid \<and>
             (if k = 0 then x else cell_at s (r + int (k - 1) * dr) (c + int (k - 1) * dc)) = p
          then 1 else 0)
     = marbles s p + (if x = p then 1 else 0)"
proof (induction k arbitrary: s r c x)
  case 0
  then have "cell_at s r c = kEmpty \<or> cell_at s r c = kInvalid"
    by (simp add: marble_run_0 not_marble_cases)
  then show ?case
  proof
    assume e: "cell_at s r c = kEmpty"
    then have g: "in_grid r c" "BoardAt s r c = kEmpty" by (auto simp: cell_at_def split: if_splits)
    show ?thesis using marbles_SetBoard [OF 0(1) g(1), of x p] g(2) e p
      by (auto simp: is_marble_def)
  next
    assume e: "cell_at s r c = kInvalid"
    then show ?thesis by simp
  qed
next
  case (Suc k)
  note f = marble_run_Suc [OF nz Suc.prems(2)]
  have cur: "cell_at s r c = BoardAt s r c" using f(2) by (simp add: cell_at_def)
  have wf1: "well_formed (SetBoard s r c x)" using Suc.prems(1) by simp
  have ih: "marbles (push_run (SetBoard s r c x) k (r + dr) (c + dc) dr dc (BoardAt s r c)) p
       + (if cell_at (SetBoard s r c x) (r + dr + int k * dr) (c + dc + int k * dc) = kInvalid \<and>
             (if k = 0 then BoardAt s r c
              else cell_at (SetBoard s r c x) (r + dr + int (k - 1) * dr) (c + dc + int (k - 1) * dc)) = p
          then 1 else 0)
     = marbles (SetBoard s r c x) p + (if BoardAt s r c = p then 1 else 0)"
    using Suc.IH [OF wf1 f(3)] .
  have D: "(if cell_at s (r + int (Suc k) * dr) (c + int (Suc k) * dc) = kInvalid \<and>
             (if Suc k = 0 then x
              else cell_at s (r + int (Suc k - 1) * dr) (c + int (Suc k - 1) * dc)) = p
          then 1 else (0::nat))
       = (if cell_at (SetBoard s r c x) (r + dr + int k * dr) (c + dc + int k * dc) = kInvalid \<and>
             (if k = 0 then BoardAt s r c
              else cell_at (SetBoard s r c x) (r + dr + int (k - 1) * dr) (c + dc + int (k - 1) * dc)) = p
          then 1 else 0)"
  proof (cases k)
    case 0
    then show ?thesis using f(4) [where j = 0] cur by simp
  next
    case (Suc k')
    then show ?thesis using f(4) [where j = "Suc k'"] f(4) [where j = k'] by simp
  qed
  show ?case
    unfolding push_run.simps D
    by (rule trans [OF ih marbles_SetBoard [OF Suc.prems(1) f(2), of x p]])
qed

section \<open>The effect of an in-line push\<close>

lemma push_run_elsewhere:
  assumes nz: "dr \<noteq> 0 \<or> dc \<noteq> 0"
  shows "marble_run s r c dr dc k \<Longrightarrow> in_grid r' c' \<Longrightarrow>
     (\<forall>j\<le>k. (r', c') \<noteq> (r + int j * dr, c + int j * dc)) \<Longrightarrow>
     BoardAt (push_run s k r c dr dc x) r' c' = BoardAt s r' c'"
proof (induction k arbitrary: s r c x)
  case 0
  have ne: "(r, c) \<noteq> (r', c')" using 0(3) by auto
  show ?case
  proof (cases "cell_at s r c = kEmpty")
    case True
    then have g: "in_grid r c" by (auto simp: cell_at_def split: if_splits)
    show ?thesis using True BoardAt_SetBoard_other [OF g 0(2) ne] by simp
  next
    case False
    then show ?thesis by simp
  qed
next
  case (Suc k)
  note f = marble_run_Suc [OF nz Suc.prems(1)]
  have ne: "(r, c) \<noteq> (r', c')" using Suc.prems(3) by (auto dest: spec [of _ 0])
  have rest: "\<forall>j\<le>k. (r', c') \<noteq> (r + dr + int j * dr, c + dc + int j * dc)"
  proof (intro allI impI)
    fix j assume "j \<le> k"
    then have "(r', c') \<noteq> (r + int (Suc j) * dr, c + int (Suc j) * dc)"
      using Suc.prems(3) by auto
    then show "(r', c') \<noteq> (r + dr + int j * dr, c + dc + int j * dc)"
      by (simp add: algebra_simps)
  qed
  show ?case
    using Suc.IH [OF f(3) Suc.prems(2) rest] BoardAt_SetBoard_other [OF f(2) Suc.prems(2) ne]
    by simp
qed

lemma walk_positions_distinct:
  assumes "dr \<noteq> 0 \<or> dc \<noteq> 0"
  shows "(r, c) \<noteq> (r + dr + int j * dr, c + dc + int j * dc)"
proof
  assume "(r, c) = (r + dr + int j * dr, c + dc + int j * dc)"
  then have "(1 + int j) * dr = 0" "(1 + int j) * dc = 0" by (simp_all add: algebra_simps)
  then show False using assms by auto
qed

lemma push_run_shift:
  assumes nz: "dr \<noteq> 0 \<or> dc \<noteq> 0"
  shows "well_formed s \<Longrightarrow> marble_run s r c dr dc k \<Longrightarrow> j \<le> k \<Longrightarrow>
     j < k \<or> cell_at s (r + int k * dr) (c + int k * dc) = kEmpty \<Longrightarrow>
     cell_at (push_run s k r c dr dc x) (r + int j * dr) (c + int j * dc)
       = (if j = 0 then x else cell_at s (r + int (j - 1) * dr) (c + int (j - 1) * dc))"
proof (induction k arbitrary: s r c x j)
  case 0
  then have e: "cell_at s r c = kEmpty" by simp
  then have g: "in_grid r c" by (auto simp: cell_at_def split: if_splits)
  show ?case using 0(3) e g BoardAt_SetBoard_same [OF 0(1) g] by (simp add: cell_at_def)
next
  case (Suc k)
  note f = marble_run_Suc [OF nz Suc.prems(2)]
  have wf1: "well_formed (SetBoard s r c x)" using Suc.prems(1) by simp
  have cur: "cell_at s r c = BoardAt s r c" using f(2) by (simp add: cell_at_def)
  show ?case
  proof (cases j)
    case 0
    have "\<forall>i\<le>k. (r, c) \<noteq> (r + dr + int i * dr, c + dc + int i * dc)"
      using walk_positions_distinct [OF nz] by blast
    from push_run_elsewhere [OF nz f(3) f(2) this]
    have "BoardAt (push_run (SetBoard s r c x) k (r + dr) (c + dc) dr dc (BoardAt s r c)) r c = x"
      using BoardAt_SetBoard_same [OF Suc.prems(1) f(2)] by simp
    then show ?thesis using 0 f(2) by (simp add: cell_at_def)
  next
    case (Suc j')
    have j': "j' \<le> k" using Suc Suc.prems(3) by simp
    have c1: "j' < k \<or> cell_at (SetBoard s r c x) (r + dr + int k * dr) (c + dc + int k * dc) = kEmpty"
      using Suc Suc.prems(4) unfolding f(4) by auto
    have ih: "cell_at (push_run (SetBoard s r c x) k (r + dr) (c + dc) dr dc (BoardAt s r c))
                (r + dr + int j' * dr) (c + dc + int j' * dc)
       = (if j' = 0 then BoardAt s r c
          else cell_at (SetBoard s r c x) (r + dr + int (j' - 1) * dr) (c + dc + int (j' - 1) * dc))"
      using Suc.IH [OF wf1 f(3) j' c1] .
    have rhs: "(if j' = 0 then BoardAt s r c
          else cell_at (SetBoard s r c x) (r + dr + int (j' - 1) * dr) (c + dc + int (j' - 1) * dc))
        = cell_at s (r + int j' * dr) (c + int j' * dc)"
    proof (cases j')
      case 0
      then show ?thesis using cur by simp
    next
      case (Suc i)
      then show ?thesis using f(4) [where j = i] by simp
    qed
    have pos: "r + int j * dr = r + dr + int j' * dr" "c + int j * dc = c + dc + int j' * dc"
      using Suc by (simp_all add: algebra_simps)
    show ?thesis
      unfolding pos push_run.simps ih rhs using Suc by simp
  qed
qed

lemma Offsets_nonzero: "m_row (Offsets d) \<noteq> 0 \<or> m_column (Offsets d) \<noteq> 0"
  by (cases d) (simp_all add: Offsets_def)

lemma takeWhile_upt_run:
  assumes "\<forall>j<k. P j" and "\<not> P k" and "k < n"
  shows "takeWhile P [0..<n] = [0..<k]"
proof -
  have "[0..<n] = [0..<k] @ k # [Suc k..<n]"
    using assms(3) by (metis less_imp_le_nat upt_add_eq_append upt_conv_Cons le_add_diff_inverse add_0 zero_le)
  moreover have "takeWhile P ([0..<k] @ k # [Suc k..<n]) = takeWhile P [0..<k]"
    using assms(2) by (rule takeWhile_tail)
  moreover have "takeWhile P [0..<k] = [0..<k]"
    using assms(1) by (simp add: takeWhile_eq_all_conv)
  ultimately show ?thesis by simp
qed

lemma marble_run_unique:
  "marble_run s r c dr dc k \<Longrightarrow> marble_run s r c dr dc k' \<Longrightarrow> k = k'"
  unfolding marble_run_def by (meson linorder_neqE_nat)

lemma marble_run_bound:
  assumes nz: "dr \<noteq> 0 \<or> dc \<noteq> 0" and run: "marble_run s r c dr dc k"
  shows "k \<le> 9"
proof (rule ccontr)
  assume "\<not> k \<le> 9"
  then have k: "0 < k" "9 < k" by simp_all
  have all: "\<And>j. j < k \<Longrightarrow> is_marble (cell_at s (r + int j * dr) (c + int j * dc))"
    using run unfolding marble_run_def by blast
  have "is_marble (cell_at s r c)" using all [OF k(1)] by simp
  moreover have "is_marble (cell_at s (r + 9 * dr) (c + 9 * dc))" using all [OF k(2)] by simp
  ultimately have "in_grid r c" "in_grid (r + 9 * dr) (c + 9 * dc)"
    using is_marble_cell_at by blast+
  then show False using nz by (auto simp: in_grid_def kNumRows_def kNumCols_def)
qed

lemma run_length_run:
  "marble_run s (m_row (m_start m)) (m_column (m_start m))
     (m_row (Offsets (m_direction m))) (m_column (Offsets (m_direction m))) (run_length s m)"
proof -
  obtain k where k: "marble_run s (m_row (m_start m)) (m_column (m_start m))
     (m_row (Offsets (m_direction m))) (m_column (Offsets (m_direction m))) k"
    using marble_run_exists [OF Offsets_nonzero] by blast
  have "k < 10" using marble_run_bound [OF Offsets_nonzero k] by simp
  then have "takeWhile (\<lambda>i. is_marble (line_cell s m (int i))) [0..<10] = [0..<k]"
    using k by (intro takeWhile_upt_run) (auto simp: marble_run_def line_cell_def)
  then have "run_length s m = k" by (simp add: run_length_def)
  then show ?thesis using k by simp
qed


lemma IsValid_True_D:
  assumes "IsValid m s = Inr True"
  shows "in_grid (m_row (m_start m)) (m_column (m_start m))"
    and "in_grid (m_row (m_end m)) (m_column (m_end m))"
    and "PlayerToState (CurrentPlayer s) = Inr (BoardAt s (m_row (m_start m)) (m_column (m_start m)))"
proof -
  have b: "\<not> (m_row (m_start m) < 0 \<or> m_row (m_start m) \<ge> kNumRows)"
    "\<not> (m_column (m_start m) < 0 \<or> m_column (m_start m) \<ge> kNumCols)"
    "\<not> (m_row (m_end m) < 0 \<or> m_row (m_end m) \<ge> kNumRows)"
    "\<not> (m_column (m_end m) < 0 \<or> m_column (m_end m) \<ge> kNumCols)"
    using assms unfolding IsValid_def by (auto split: if_splits)
  then show "in_grid (m_row (m_start m)) (m_column (m_start m))"
    and "in_grid (m_row (m_end m)) (m_column (m_end m))"
    by (auto simp: in_grid_def)
  show "PlayerToState (CurrentPlayer s) = Inr (BoardAt s (m_row (m_start m)) (m_column (m_start m)))"
    using assms b unfolding IsValid_def Let_def
    by (simp split: sum.splits if_splits)
qed

lemma PlayerToState_marble:
  assumes "current_player s = 0 \<or> current_player s = 1"
    and "PlayerToState (CurrentPlayer s) = Inr x"
  shows "is_marble x"
proof -
  have "CurrentPlayer s \<noteq> kTerminalPlayerId"
    using assms(2) by (auto simp: PlayerToState_def kTerminalPlayerId_def kInvalidPlayer_def)
  then have "CurrentPlayer s = current_player s"
    by (simp add: CurrentPlayer_def split: if_splits)
  then show ?thesis
    using assms by (auto simp: PlayerToState_def kInvalidPlayer_def is_marble_def)
qed

lemma IsValid_True_mover:
  "IsValid m s = Inr True \<Longrightarrow> current_player s = 0 \<or> current_player s = 1
    \<Longrightarrow> mover_at_start s m"
  using IsValid_True_D(3) [of m s] PlayerToState_marble [of s]
  by (simp add: mover_at_start_def)

lemma Apply_inline:
  assumes "is_inline m"
    and "marble_run s (m_row (m_start m)) (m_column (m_start m))
     (m_row (Offsets (m_direction m))) (m_column (Offsets (m_direction m))) k"
  shows "Apply m s = Inr (push_run s k (m_row (m_start m)) (m_column (m_start m))
     (m_row (Offsets (m_direction m))) (m_column (Offsets (m_direction m))) kEmpty)"
  using assms(1) ApplySingleMove_loop_run [OF Offsets_nonzero assms(2), of kEmpty]
  by (simp add: Apply_def is_inline_def ApplySingleMove_def Let_def)

lemma valid_inline_front:
  assumes pat: "inline_patterns own l" and own: "is_marble own" and l0: "l 0 = own"
    and run: "\<forall>j<k. is_marble (l (int j))" "\<not> is_marble (l (int k))"
  shows "1 \<le> k \<and> k \<le> 5 \<and> (l (int k) = kInvalid \<longrightarrow> l (int (k - 1)) = opponent_of own)"
proof -
  have opp: "is_marble (opponent_of own)" "opponent_of own \<noteq> own"
    using own by (auto simp: opponent_of_def is_marble_def)
  have nm: "\<not> is_marble kEmpty" "\<not> is_marble kInvalid" by (simp_all add: is_marble_def)
  have k0: "k \<noteq> 0" using run(2) l0 own by (cases k) auto
  have m: "\<And>j. j < k \<Longrightarrow> is_marble (l (int j))" using run(1) by blast
  consider "k = 1" | "k = 2" | "k = 3" | "k = 4" | "k = 5" | "5 < k" using k0 by linarith
  then show ?thesis
  proof cases
    case 1
    then have "\<not> is_marble (l 1)" using run(2) by simp
    then show ?thesis using pat 1 own opp nm unfolding inline_patterns_def by auto
  next
    case 2
    then have "is_marble (l 1)" "\<not> is_marble (l 2)" using run(2) m [of 1] by simp_all
    then show ?thesis using pat 2 own opp nm unfolding inline_patterns_def by auto
  next
    case 3
    then have "is_marble (l 1)" "is_marble (l 2)" "\<not> is_marble (l 3)"
      using run(2) m [of 1] m [of 2] by simp_all
    then show ?thesis using pat 3 own opp nm unfolding inline_patterns_def by auto
  next
    case 4
    then have "is_marble (l 1)" "is_marble (l 2)" "is_marble (l 3)" "\<not> is_marble (l 4)"
      using run(2) m [of 1] m [of 2] m [of 3] by simp_all
    then show ?thesis using pat 4 own opp nm unfolding inline_patterns_def by auto
  next
    case 5
    then have "is_marble (l 1)" "is_marble (l 2)" "is_marble (l 3)" "is_marble (l 4)"
      "\<not> is_marble (l 5)"
      using run(2) m [of 1] m [of 2] m [of 3] m [of 4] by simp_all
    then show ?thesis using pat 5 own opp nm unfolding inline_patterns_def by auto
  next
    case 6
    then have "is_marble (l 1)" "is_marble (l 2)" "is_marble (l 3)" "is_marble (l 4)"
      "is_marble (l 5)"
      using m [of 1] m [of 2] m [of 3] m [of 4] m [of 5] by simp_all
    then show ?thesis using pat nm unfolding inline_patterns_def by auto
  qed
qed


text \<open>
  Claim C7, as amended. A legal in-line push, applied by the executor, never increases the
  number of marbles on the board. With \<open>k\<close> the length of the contiguous run of marbles
  that starts at the start cell, the number strictly decreases exactly when position \<open>k\<close>
  of the line reads as invalid, that is when the front marble of the run is pushed off the
  hexagonal board: to a position beyond the grid, or onto an invalid cell of the grid. The
  marble that disappears is then the opponent's; the mover's own count never changes. Otherwise
  the count of each player is preserved, the start cell becomes empty and every marble of
  the run is shifted one step.
\<close>

theorem inline_push_marbles:
  assumes wf: "well_formed s"
    and cp: "current_player s = 0 \<or> current_player s = 1"
    and il: "is_inline m"
    and valid: "IsValid m s = Inr True"
    and k: "k = run_length s m"
    and own: "own = BoardAt s (m_row (m_start m)) (m_column (m_start m))"
  shows "\<exists>s'. Apply m s = Inr s' \<and>
      total_marbles s' \<le> total_marbles s \<and>
      (total_marbles s' < total_marbles s \<longleftrightarrow> line_cell s m (int k) = kInvalid) \<and>
      marbles s' own = marbles s own \<and>
      (line_cell s m (int k) = kInvalid \<longrightarrow>
         marbles s' (opponent_of own) + 1 = marbles s (opponent_of own)) \<and>
      (line_cell s m (int k) \<noteq> kInvalid \<longrightarrow>
         marbles s' kPlayer1 = marbles s kPlayer1 \<and>
         marbles s' kPlayer2 = marbles s kPlayer2 \<and>
         line_cell s' m 0 = kEmpty \<and>
         (\<forall>j<k. line_cell s' m (int j + 1) = line_cell s m (int j)))"
proof -
  define r c dr dc where "r = m_row (m_start m)" and "c = m_column (m_start m)"
    and "dr = m_row (Offsets (m_direction m))" and "dc = m_column (Offsets (m_direction m))"
  define s' where "s' = push_run s k r c dr dc kEmpty"
  have nz: "dr \<noteq> 0 \<or> dc \<noteq> 0" unfolding dr_def dc_def by (rule Offsets_nonzero)
  have run: "marble_run s r c dr dc k"
    unfolding k r_def c_def dr_def dc_def by (rule run_length_run)
  have ap: "Apply m s = Inr s'"
    unfolding s'_def r_def c_def dr_def dc_def
    using Apply_inline [OF il] run unfolding r_def c_def dr_def dc_def by blast
  have lc: "\<And>j. line_cell s m (int j) = cell_at s (r + int j * dr) (c + int j * dc)"
    "\<And>j. line_cell s' m (int j) = cell_at s' (r + int j * dr) (c + int j * dc)"
    by (simp_all add: line_cell_def r_def c_def dr_def dc_def)
  have mv: "mover_at_start s m" using IsValid_True_mover [OF valid cp] .
  have ownm: "is_marble own" "line_cell s m 0 = own"
    using mv IsValid_True_D(1) [OF valid] own
    by (simp_all add: mover_at_start_def line_cell_def cell_at_def)
  have pat: "inline_patterns own (line_cell s m)"
    using IsValid_inline [OF IsValid_True_D(1,2) [OF valid] mv il] valid own by simp
  have runl: "\<forall>j<k. is_marble (line_cell s m (int j))" "\<not> is_marble (line_cell s m (int k))"
    using run unfolding marble_run_def lc by simp_all
  have front: "1 \<le> k" "k \<le> 5"
    "line_cell s m (int k) = kInvalid \<longrightarrow> line_cell s m (int (k - 1)) = opponent_of own"
    using valid_inline_front [OF pat ownm runl] by blast+
  have opp: "is_marble (opponent_of own)" "opponent_of own \<noteq> own"
    using ownm(1) by (auto simp: opponent_of_def is_marble_def)
  have cnt: "\<And>p. is_marble p \<Longrightarrow>
     marbles s' p + (if line_cell s m (int k) = kInvalid \<and> line_cell s m (int (k - 1)) = p
                     then 1 else 0) = marbles s p"
    using push_run_marbles [OF nz _ wf run, of _ kEmpty] front(1)
    unfolding s'_def lc by (auto simp: is_marble_def)
  have c_own: "marbles s' own = marbles s own"
    using cnt [OF ownm(1)] front(3) opp(2) by (auto split: if_splits)
  have c_opp: "marbles s' (opponent_of own)
      + (if line_cell s m (int k) = kInvalid then 1 else 0) = marbles s (opponent_of own)"
    using cnt [OF opp(1)] front(3) by (auto split: if_splits)
  have tot: "total_marbles s' + (if line_cell s m (int k) = kInvalid then 1 else 0)
      = total_marbles s"
    using c_own c_opp ownm(1) unfolding total_marbles_def opponent_of_def is_marble_def
    by (auto split: if_splits)
  have both: "line_cell s m (int k) \<noteq> kInvalid \<longrightarrow>
     marbles s' kPlayer1 = marbles s kPlayer1 \<and> marbles s' kPlayer2 = marbles s kPlayer2"
    using c_own c_opp ownm(1) unfolding opponent_of_def is_marble_def
    by (auto split: if_splits)
  have emp: "line_cell s m (int k) \<noteq> kInvalid \<Longrightarrow> cell_at s (r + int k * dr) (c + int k * dc) = kEmpty"
    using runl(2) unfolding lc by (simp add: not_marble_cases)
  have sh0: "line_cell s' m 0 = kEmpty"
    using push_run_shift [OF nz wf run, of 0 kEmpty] front(1) lc(2) [of 0]
    unfolding s'_def by simp
  have sh: "line_cell s m (int k) \<noteq> kInvalid \<longrightarrow>
     (\<forall>j<k. line_cell s' m (int j + 1) = line_cell s m (int j))"
  proof (intro impI allI)
    fix j assume a: "line_cell s m (int k) \<noteq> kInvalid" "j < k"
    have "cell_at s' (r + int (Suc j) * dr) (c + int (Suc j) * dc)
        = cell_at s (r + int j * dr) (c + int j * dc)"
      using push_run_shift [OF nz wf run, of "Suc j" kEmpty] a(2) emp [OF a(1)]
      unfolding s'_def by simp
    then show "line_cell s' m (int j + 1) = line_cell s m (int j)"
      using lc(1) [of j] lc(2) [of "Suc j"] by (simp add: add.commute)
  qed
  show ?thesis
    using ap tot c_own c_opp both sh0 sh by (auto split: if_splits)
qed


lemma edge_push_move_fields:
  "m_row (m_start edge_push_move) = 5" "m_column (m_start edge_push_move) = 5"
  "m_row (m_end edge_push_move) = 5" "m_column (m_end edge_push_move) = 6"
  "m_row (Offsets (m_direction edge_push_move)) = 0"
  "m_column (Offsets (m_direction edge_push_move)) = 1"
  by (simp_all add: edge_push_move_def mkMove_def Offsets_def)

lemma edge_push_well_formed: "well_formed edge_push_state"
  by (simp add: well_formed_length edge_push_board)

lemma edge_push_valid: "IsValid edge_push_move edge_push_state = Inr True"
proof -
  have a: "in_grid (m_row (m_start edge_push_move)) (m_column (m_start edge_push_move))"
    "in_grid (m_row (m_end edge_push_move)) (m_column (m_end edge_push_move))"
    by (simp_all add: in_grid_def kNumRows_def kNumCols_def edge_push_move_def mkMove_def)
  have o: "BoardAt edge_push_state (m_row (m_start edge_push_move))
      (m_column (m_start edge_push_move)) = kPlayer1"
    by (simp add: BoardAt_def edge_push_board kNumCols_def edge_push_move_def mkMove_def)
  show ?thesis
    unfolding IsValid_inline [OF a edge_push_mover edge_push_inline] o
    by (simp add: inline_patterns_def edge_push_line opponent_of_def)
qed

lemma edge_push_run_length: "run_length edge_push_state edge_push_move = 3"
proof -
  have u: "[0..<10] = [0, 1, 2, 3, 4, 5, 6, 7, 8, 9]" by (simp add: upt_rec)
  show ?thesis
    unfolding run_length_def u
    by (simp add: edge_push_line is_marble_def)
qed

lemma edge_push_apply:
  "Apply edge_push_move edge_push_state =
     Inr (SetBoard (SetBoard (SetBoard edge_push_state 5 5 kEmpty) 5 6 kPlayer1) 5 7 kPlayer1)"
proof -
  have r: "marble_run edge_push_state 5 5 0 1 3"
    using run_length_run [of edge_push_state edge_push_move]
    by (simp add: edge_push_run_length edge_push_move_fields)
  have b: "BoardAt edge_push_state 5 5 = kPlayer1"
    "BoardAt (SetBoard edge_push_state 5 5 kEmpty) 5 6 = kPlayer1"
    "BoardAt (SetBoard (SetBoard edge_push_state 5 5 kEmpty) 5 6 kPlayer1) 5 7 = kPlayer2"
    "cell_at (SetBoard (SetBoard (SetBoard edge_push_state 5 5 kEmpty) 5 6 kPlayer1) 5 7 kPlayer1) 5 8
       = kInvalid"
    by (simp_all add: BoardAt_def SetBoard_def edge_push_board kNumCols_def cell_at_def)
  have three: "(3::nat) = Suc (Suc (Suc 0))" by simp
  have "Apply edge_push_move edge_push_state = Inr (push_run edge_push_state 3 5 5 0 1 kEmpty)"
    using Apply_inline [OF edge_push_inline, of edge_push_state 3] r
    by (simp add: edge_push_move_fields)
  also have "push_run edge_push_state 3 5 5 0 1 kEmpty =
     SetBoard (SetBoard (SetBoard edge_push_state 5 5 kEmpty) 5 6 kPlayer1) 5 7 kPlayer1"
    unfolding three push_run.simps by (simp add: b)
  finally show ?thesis .
qed

lemma edge_push_totals:
  "total_marbles edge_push_state = 3"
  "total_marbles (SetBoard (SetBoard (SetBoard edge_push_state 5 5 kEmpty) 5 6 kPlayer1) 5 7 kPlayer1) = 2"
  by (simp_all add: total_marbles_def marbles_def SetBoard_def edge_push_board kNumCols_def)

text \<open>
  The claim as stated speaks of a position beyond the grid only. On row "d" the position
  right of d8 is the cell d9 of the 9x9 grid, which is invalid: pushing the opposing marble
  there is legal and removes it, although the position lies inside the grid.
\<close>

theorem inline_push_beyond_grid_counterexample:
  "IsValid edge_push_move edge_push_state = Inr True \<and> is_inline edge_push_move \<and>
   run_length edge_push_state edge_push_move = 3 \<and>
   in_grid (m_row (m_start edge_push_move) + 3 * m_row (Offsets (m_direction edge_push_move)))
           (m_column (m_start edge_push_move)
              + 3 * m_column (Offsets (m_direction edge_push_move))) \<and>
   Apply edge_push_move edge_push_state =
     Inr (SetBoard (SetBoard (SetBoard edge_push_state 5 5 kEmpty) 5 6 kPlayer1) 5 7 kPlayer1) \<and>
   total_marbles
     (SetBoard (SetBoard (SetBoard edge_push_state 5 5 kEmpty) 5 6 kPlayer1) 5 7 kPlayer1)
     < total_marbles edge_push_state"
  using edge_push_valid edge_push_inline edge_push_run_length
  by (simp add: edge_push_apply edge_push_totals edge_push_move_fields
      in_grid_def kNumRows_def kNumCols_def)

theorem inline_push_marbles_witness:
  "well_formed edge_push_state \<and> current_player edge_push_state = 0 \<and>
   is_inline edge_push_move \<and> IsValid edge_push_move edge_push_state = Inr True \<and>
   3 = run_length edge_push_state edge_push_move \<and>
   line_cell edge_push_state edge_push_move 3 = kInvalid \<and>
   (\<exists>s'. Apply edge_push_move edge_push_state = Inr s' \<and>
         total_marbles s' < total_marbles edge_push_state \<and>
         marbles s' kPlayer1 = marbles edge_push_state kPlayer1 \<and>
         marbles s' kPlayer2 + 1 = marbles edge_push_state kPlayer2)"
proof -
  have o: "kPlayer1 = BoardAt edge_push_state (m_row (m_start edge_push_move))
      (m_column (m_start edge_push_move))"
    by (simp add: BoardAt_def edge_push_board kNumCols_def edge_push_move_def mkMove_def)
  have cp: "current_player edge_push_state = 0 \<or> current_player edge_push_state = 1"
    by (simp add: edge_push_fields)
  show ?thesis
    using inline_push_marbles [OF edge_push_well_formed cp edge_push_inline edge_push_valid
        edge_push_run_length [symmetric] o]
      edge_push_well_formed edge_push_inline edge_push_valid edge_push_run_length
      edge_push_line(4) edge_push_fields(1)
    by (auto simp: opponent_of_def)
qed

section \<open>The effect of a slide\<close>

lemma ApplyParallelMove_loop_fields:
  "current_player (ApplyParallelMove_loop s n player r c dr dc sr sc) = current_player s \<and>
   outcome (ApplyParallelMove_loop s n player r c dr dc sr sc) = outcome s \<and>
   num_moves (ApplyParallelMove_loop s n player r c dr dc sr sc) = num_moves s \<and>
   well_formed (ApplyParallelMove_loop s n player r c dr dc sr sc) = well_formed s"
  by (induction n arbitrary: s r c) (auto simp: Let_def)

lemma ApplyParallelMove_loop_step:
  "ApplyParallelMove_loop s (Suc n) player r c dr dc sr sc = s \<or>
   (in_grid r c \<and> BoardAt s r c = player \<and> in_grid (r + dr) (c + dc) \<and>
    BoardAt s (r + dr) (c + dc) = kEmpty \<and>
    ApplyParallelMove_loop s (Suc n) player r c dr dc sr sc =
      ApplyParallelMove_loop (SetBoard (SetBoard s (r + dr) (c + dc) player) r c kEmpty) n
        player (r + sr) (c + sc) dr dc sr sc)"
  by (auto simp: Let_def in_grid_def)

lemma slide_step_marbles:
  assumes wf: "well_formed s" and nz: "dr \<noteq> 0 \<or> dc \<noteq> 0" and p: "is_marble p"
    and src: "in_grid r c" and dst: "in_grid (r + dr) (c + dc)"
    and e: "BoardAt s (r + dr) (c + dc) = kEmpty"
  shows "marbles (SetBoard (SetBoard s (r + dr) (c + dc) (BoardAt s r c)) r c kEmpty) p
           = marbles s p"
proof -
  let ?s1 = "SetBoard s (r + dr) (c + dc) (BoardAt s r c)"
  have ne: "(r + dr, c + dc) \<noteq> (r, c)" using nz by auto
  have pe: "p \<noteq> kEmpty" using p by (auto simp: is_marble_def)
  have a: "marbles ?s1 p = marbles s p + (if BoardAt s r c = p then 1 else 0)"
    using marbles_SetBoard [OF wf dst, of "BoardAt s r c" p] e pe by auto
  have wf1: "well_formed ?s1" using wf by simp
  have "BoardAt ?s1 r c = BoardAt s r c"
    using BoardAt_SetBoard_other [OF dst src ne] by simp
  then have "marbles (SetBoard ?s1 r c kEmpty) p + (if BoardAt s r c = p then 1 else 0)
      = marbles ?s1 p"
    using marbles_SetBoard [OF wf1 src, of kEmpty p] pe by auto
  then show ?thesis using a by simp
qed

lemma ApplyParallelMove_loop_marbles:
  assumes nz: "dr \<noteq> 0 \<or> dc \<noteq> 0" and p: "is_marble p"
  shows "well_formed s \<Longrightarrow>
     marbles (ApplyParallelMove_loop s n player r c dr dc sr sc) p = marbles s p"
proof (induction n arbitrary: s r c)
  case 0
  then show ?case by simp
next
  case (Suc n)
  from ApplyParallelMove_loop_step [of s n player r c dr dc sr sc]
  show ?case
  proof
    assume "ApplyParallelMove_loop s (Suc n) player r c dr dc sr sc = s"
    then show ?thesis by simp
  next
    assume a: "in_grid r c \<and> BoardAt s r c = player \<and> in_grid (r + dr) (c + dc) \<and>
      BoardAt s (r + dr) (c + dc) = kEmpty \<and>
      ApplyParallelMove_loop s (Suc n) player r c dr dc sr sc =
        ApplyParallelMove_loop (SetBoard (SetBoard s (r + dr) (c + dc) player) r c kEmpty) n
          player (r + sr) (c + sc) dr dc sr sc"
    let ?s2 = "SetBoard (SetBoard s (r + dr) (c + dc) player) r c kEmpty"
    have wf2: "well_formed ?s2" using Suc.prems by simp
    have "marbles ?s2 p = marbles s p"
      using slide_step_marbles [OF Suc.prems nz p, of r c] a by auto
    then show ?thesis using a Suc.IH [OF wf2] by simp
  qed
qed

lemma ApplyParallelMove_loop_invalid:
  assumes nz: "dr \<noteq> 0 \<or> dc \<noteq> 0" and pl: "player \<noteq> kInvalid"
  shows "in_grid r' c' \<Longrightarrow> BoardAt s r' c' = kInvalid \<Longrightarrow>
     BoardAt (ApplyParallelMove_loop s n player r c dr dc sr sc) r' c' = kInvalid"
proof (induction n arbitrary: s r c)
  case 0
  then show ?case by simp
next
  case (Suc n)
  from ApplyParallelMove_loop_step [of s n player r c dr dc sr sc]
  show ?case
  proof
    assume "ApplyParallelMove_loop s (Suc n) player r c dr dc sr sc = s"
    then show ?thesis using Suc.prems by simp
  next
    assume a: "in_grid r c \<and> BoardAt s r c = player \<and> in_grid (r + dr) (c + dc) \<and>
      BoardAt s (r + dr) (c + dc) = kEmpty \<and>
      ApplyParallelMove_loop s (Suc n) player r c dr dc sr sc =
        ApplyParallelMove_loop (SetBoard (SetBoard s (r + dr) (c + dc) player) r c kEmpty) n
          player (r + sr) (c + sc) dr dc sr sc"
    let ?s1 = "SetBoard s (r + dr) (c + dc) player"
    let ?s2 = "SetBoard ?s1 r c kEmpty"
    have n1: "(r + dr, c + dc) \<noteq> (r', c')" using a Suc.prems(2) by auto
    have n2: "(r, c) \<noteq> (r', c')" using a Suc.prems(2) pl by auto
    have "BoardAt ?s1 r' c' = kInvalid"
      using BoardAt_SetBoard_other [OF _ Suc.prems(1) n1] a Suc.prems(2) by simp
    then have "BoardAt ?s2 r' c' = kInvalid"
      using BoardAt_SetBoard_other [OF _ Suc.prems(1) n2] a by simp
    then show ?thesis using a Suc.IH [OF Suc.prems(1)] by simp
  qed
qed

lemma Apply_slide:
  assumes "\<not> is_inline m" and "index_ok (m_row (m_start m)) (m_column (m_start m))"
  shows "\<exists>n sr sc. Apply m s =
     Inr (ApplyParallelMove_loop s n (BoardAt s (m_row (m_start m)) (m_column (m_start m)))
            (m_row (m_start m)) (m_column (m_start m))
            (m_row (Offsets (m_direction m))) (m_column (Offsets (m_direction m))) sr sc)"
proof -
  have "m_row (Offsets (m_direction m)) \<noteq> m_row (m_end m) - m_row (m_start m) \<or>
        m_column (Offsets (m_direction m)) \<noteq> m_column (m_end m) - m_column (m_start m)"
    using assms(1) by (auto simp: is_inline_def)
  then show ?thesis
    using assms(2) by (simp add: Apply_def ApplyParallelMove_def Let_def) blast
qed

text \<open>
  Claim C10. A move that \<open>Apply\<close> executes through its slide branch, valid or not, leaves
  the number of marbles of each player unchanged, on every board: each iteration of the walk
  either stops, or finds the walked cell holding the mover's value and its destination
  empty, writes that value to the destination and empties the walked cell. (The move's
  start must index the board array: \<open>_ApplyParallelMove\<close> reads the start cell before any
  bounds check.)
\<close>

theorem slide_keeps_marbles:
  assumes "well_formed s" and "\<not> is_inline m"
    and "index_ok (m_row (m_start m)) (m_column (m_start m))"
    and "dr = m_row (Offsets (m_direction m))" and "dc = m_column (Offsets (m_direction m))"
  shows "(\<exists>s'. Apply m s = Inr s' \<and>
            marbles s' kPlayer1 = marbles s kPlayer1 \<and>
            marbles s' kPlayer2 = marbles s kPlayer2) \<and>
         (\<forall>t n player r c sr sc.
            ApplyParallelMove_loop t (Suc n) player r c dr dc sr sc = t \<or>
            (in_grid r c \<and> BoardAt t r c = player \<and> in_grid (r + dr) (c + dc) \<and>
             BoardAt t (r + dr) (c + dc) = kEmpty \<and>
             ApplyParallelMove_loop t (Suc n) player r c dr dc sr sc =
               ApplyParallelMove_loop
                 (SetBoard (SetBoard t (r + dr) (c + dc) player) r c kEmpty) n
                 player (r + sr) (c + sc) dr dc sr sc))"
proof -
  have nz: "dr \<noteq> 0 \<or> dc \<noteq> 0" unfolding assms(4,5) by (rule Offsets_nonzero)
  obtain n sr sc where a: "Apply m s =
     Inr (ApplyParallelMove_loop s n (BoardAt s (m_row (m_start m)) (m_column (m_start m)))
            (m_row (m_start m)) (m_column (m_start m)) dr dc sr sc)"
    using Apply_slide [OF assms(2,3)] unfolding assms(4,5) by blast
  have "is_marble kPlayer1" "is_marble kPlayer2" by (simp_all add: is_marble_def)
  then show ?thesis
    using a ApplyParallelMove_loop_marbles [OF nz _ assms(1)] ApplyParallelMove_loop_step
    by simp
qed


section \<open>A move built by hand whose walk leaves the grid\<close>

text \<open>
  \<open>_IsValidSlide\<close> reads each walked cell without a bounds check. The decoder only
  produces moves whose walk runs along the straight line between \<open>start\<close> and \<open>end\<close>
  (see the section on straight slides below), and \<open>IsValid\<close> is only called on moves of
  the decoder, so the read stays in the grid there. The move \<open>bent_slide_move\<close> is not
  such a move: \<open>end - start = (2, -1)\<close> is no multiple of an offset. Its walk visits
  \<open>(3, 1)\<close>, \<open>(4, 0)\<close> and \<open>(5, -1)\<close>, and the third read, at index \<open>5 * 9 - 1\<close>, is that
  of the cell \<open>(4, 8)\<close>. The same position is used below for a slide that the executor
  applies to two marbles.
\<close>


lemma bent_slide_board:
  "board bent_slide_state =
    [kInvalid, kInvalid, kInvalid, kInvalid, kEmpty, kEmpty, kEmpty, kEmpty, kEmpty,
     kInvalid, kInvalid, kInvalid, kEmpty, kEmpty, kEmpty, kEmpty, kEmpty, kEmpty,
     kInvalid, kInvalid, kEmpty, kEmpty, kEmpty, kEmpty, kEmpty, kEmpty, kEmpty,
     kInvalid, kPlayer1, kEmpty, kEmpty, kEmpty, kEmpty, kEmpty, kEmpty, kEmpty,
     kPlayer1, kEmpty, kEmpty, kEmpty, kEmpty, kEmpty, kEmpty, kEmpty, kPlayer1,
     kEmpty, kEmpty, kEmpty, kEmpty, kEmpty, kEmpty, kEmpty, kEmpty, kInvalid,
     kEmpty, kEmpty, kEmpty, kEmpty, kEmpty, kEmpty, kEmpty, kInvalid, kInvalid,
     kEmpty, kEmpty, kEmpty, kEmpty, kEmpty, kEmpty, kInvalid, kInvalid, kInvalid,
     kEmpty, kEmpty, kEmpty, kEmpty, kEmpty, kInvalid, kInvalid, kInvalid, kInvalid]"
  by (simp add: bent_slide_state_def empty_state_def SetBoard_def VALID_BOARD_def kNumCols_def)

lemma bent_slide_fields:
  "current_player bent_slide_state = 0" "outcome bent_slide_state = kInvalidPlayer"
  "num_moves bent_slide_state = 0"
  by (simp_all add: bent_slide_state_def empty_state_def SetBoard_def)

lemma bent_slide_move_fields:
  "m_row (m_start bent_slide_move) = 3" "m_column (m_start bent_slide_move) = 1"
  "m_row (m_end bent_slide_move) = 5" "m_column (m_end bent_slide_move) = 0"
  "m_direction bent_slide_move = RIGHT"
  by (simp_all add: bent_slide_move_def mkMove_def)

lemma bent_slide_well_formed: "well_formed bent_slide_state"
  by (simp add: well_formed_length bent_slide_board)

lemma bent_slide_not_inline: "\<not> is_inline bent_slide_move"
  by (simp add: is_inline_def bent_slide_move_fields Offsets_def)

lemma bent_slide_mover: "mover_at_start bent_slide_state bent_slide_move"
  by (simp add: mover_at_start_def bent_slide_move_fields BoardAt_def bent_slide_board
      kNumCols_def is_marble_def CurrentPlayer_def IsTerminal_def bent_slide_fields
      kInvalidPlayer_def kHistoryMax_def PlayerToState_def)

lemma bent_slide_valid: "IsValid bent_slide_move bent_slide_state = Inr True"
proof -
  have three: "(3::nat) = Suc (Suc (Suc 0))" by simp
  have p: "PlayerToState (CurrentPlayer bent_slide_state) = Inr kPlayer1"
    by (simp add: CurrentPlayer_def IsTerminal_def bent_slide_fields
      kInvalidPlayer_def kHistoryMax_def PlayerToState_def)
  have s: "IsValidSlide bent_slide_move bent_slide_state = Inr True"
    unfolding IsValidSlide_def Let_def bent_slide_move_fields
    by (simp add: three index_ok_def kNumCols_def kNumCells_def kNumRows_def BoardAt_def
        bent_slide_board all_directions_def Offsets_def)
  show ?thesis
    unfolding IsValid_def Let_def bent_slide_move_fields p
    by (simp add: s kNumCols_def kNumRows_def BoardAt_def bent_slide_board Offsets_def)
qed

lemma bent_slide_not_legal: "\<not> slide_legal bent_slide_state bent_slide_move"
proof
  assume a: "slide_legal bent_slide_state bent_slide_move"
  have st: "slide_step bent_slide_move = (1, - 1)" "slide_size bent_slide_move = 3"
    by (simp_all add: slide_step_def slide_size_def bent_slide_move_fields)
  have "(2::int) \<in> {0 ..< slide_size bent_slide_move}" by (simp add: st)
  with a have "cell_at bent_slide_state (m_row (m_start bent_slide_move) + 2 * fst (slide_step bent_slide_move))
                  (m_column (m_start bent_slide_move) + 2 * snd (slide_step bent_slide_move))
          = BoardAt bent_slide_state (m_row (m_start bent_slide_move)) (m_column (m_start bent_slide_move))"
    unfolding slide_legal_def by blast
  then show False
    by (simp add: st bent_slide_move_fields cell_at_def in_grid_def BoardAt_def bent_slide_board
        kNumCols_def)
qed

theorem slide_keeps_marbles_witness:
  "well_formed bent_slide_state \<and> \<not> is_inline bent_slide_move \<and> index_ok 3 1 \<and>
   (\<exists>s'. Apply bent_slide_move bent_slide_state = Inr s' \<and>
         marbles s' kPlayer1 = marbles bent_slide_state kPlayer1 \<and>
         marbles s' kPlayer2 = marbles bent_slide_state kPlayer2)"
proof -
  have i: "index_ok (m_row (m_start bent_slide_move)) (m_column (m_start bent_slide_move))"
    by (simp add: bent_slide_move_fields index_ok_def kNumCols_def kNumCells_def kNumRows_def)
  show ?thesis
    using slide_keeps_marbles [OF bent_slide_well_formed bent_slide_not_inline i refl refl]
      bent_slide_well_formed bent_slide_not_inline i
    by (simp add: bent_slide_move_fields)
qed

section \<open>Applying an action\<close>

lemma in_grid_index_ok: "in_grid r c \<Longrightarrow> index_ok r c"
  by (auto simp: in_grid_def index_ok_def kNumRows_def kNumCols_def kNumCells_def)

lemma IsValid_True_slide:
  assumes "IsValid m s = Inr True" and "\<not> is_inline m"
  shows "BoardAt s (m_row (m_start m)) (m_column (m_start m)) \<noteq> kInvalid"
proof -
  have v: "m_row (Offsets (m_direction m)) \<noteq> m_row (m_end m) - m_row (m_start m) \<or>
        m_column (Offsets (m_direction m)) \<noteq> m_column (m_end m) - m_column (m_start m)"
    using assms(2) by (auto simp: is_inline_def)
  have "IsValidSlide m s = Inr True"
    using assms(1) v unfolding IsValid_def Let_def
    by (simp split: if_splits sum.splits)
  then show ?thesis
    unfolding IsValidSlide_def Let_def by (auto split: if_splits)
qed

lemma Apply_after_valid:
  assumes v: "IsValid m s = Inr True"
  shows "\<exists>s1. Apply m s = Inr s1 \<and> current_player s1 = current_player s \<and>
     outcome s1 = outcome s \<and> num_moves s1 = num_moves s \<and>
     well_formed s1 = well_formed s \<and>
     (\<forall>r c. in_grid r c \<longrightarrow> BoardAt s r c = kInvalid \<longrightarrow> BoardAt s1 r c = kInvalid)"
proof (cases "is_inline m")
  case True
  obtain k where k: "marble_run s (m_row (m_start m)) (m_column (m_start m))
     (m_row (Offsets (m_direction m))) (m_column (Offsets (m_direction m))) k"
    using marble_run_exists [OF Offsets_nonzero] by blast
  show ?thesis
    using Apply_inline [OF True k] push_run_fields push_run_invalid [OF Offsets_nonzero k]
    by simp
next
  case False
  have i: "index_ok (m_row (m_start m)) (m_column (m_start m))"
    using IsValid_True_D(1) [OF v] by (rule in_grid_index_ok)
  obtain n sr sc where a: "Apply m s =
     Inr (ApplyParallelMove_loop s n (BoardAt s (m_row (m_start m)) (m_column (m_start m)))
            (m_row (m_start m)) (m_column (m_start m))
            (m_row (Offsets (m_direction m))) (m_column (Offsets (m_direction m))) sr sc)"
    using Apply_slide [OF False i] by blast
  show ?thesis
    using a ApplyParallelMove_loop_fields
      ApplyParallelMove_loop_invalid [OF Offsets_nonzero IsValid_True_slide [OF v False]]
    by simp
qed

lemma BoardAt_board_eq: "board s = board t \<Longrightarrow> BoardAt s r c = BoardAt t r c"
  by (simp add: BoardAt_def)

lemma DoApplyAction_invalid:
  "ActionToMove a = Inr m \<Longrightarrow> IsValid m s = Inr False \<Longrightarrow>
   DoApplyAction s a = Inr (s\<lparr>outcome := 1 - current_player s\<rparr>)"
  by (simp add: DoApplyAction_def)

lemma DoApplyAction_valid:
  assumes "ActionToMove a = Inr m" and "IsValid m s = Inr True" and "Apply m s = Inr s1"
    and "current_player s1 = 0 \<or> current_player s1 = 1"
  shows "\<exists>s'. DoApplyAction s a = Inr s' \<and> board s' = board s1 \<and>
     current_player s' = 1 - current_player s1 \<and> num_moves s' = num_moves s1 + 1"
  using assms by (auto simp: DoApplyAction_def Let_def)

lemma DoApplyAction_cases:
  assumes "DoApplyAction s a = Inr s'"
  shows "(\<exists>m. ActionToMove a = Inr m \<and> IsValid m s = Inr False \<and>
              s' = s\<lparr>outcome := 1 - current_player s\<rparr>) \<or>
         (\<exists>m s1. ActionToMove a = Inr m \<and> IsValid m s = Inr True \<and> Apply m s = Inr s1 \<and>
              board s' = board s1 \<and> current_player s' = 1 - current_player s1 \<and>
              num_moves s' = num_moves s1 + 1)"
  using assms unfolding DoApplyAction_def Let_def
  by (auto split: sum.splits if_splits)

lemma DoApplyAction_invalid_cells:
  assumes "DoApplyAction s a = Inr s'" and "in_grid r c" and "BoardAt s r c = kInvalid"
  shows "BoardAt s' r c = kInvalid"
  using DoApplyAction_cases [OF assms(1)]
proof
  assume "\<exists>m. ActionToMove a = Inr m \<and> IsValid m s = Inr False \<and>
              s' = s\<lparr>outcome := 1 - current_player s\<rparr>"
  then show ?thesis using assms(3) by (auto simp: BoardAt_def)
next
  assume "\<exists>m s1. ActionToMove a = Inr m \<and> IsValid m s = Inr True \<and> Apply m s = Inr s1 \<and>
              board s' = board s1 \<and> current_player s' = 1 - current_player s1 \<and>
              num_moves s' = num_moves s1 + 1"
  then obtain m s1 where m: "IsValid m s = Inr True" "Apply m s = Inr s1" "board s' = board s1"
    by blast
  have "BoardAt s1 r c = kInvalid"
    using Apply_after_valid [OF m(1)] m(2) assms(2,3) by auto
  then show ?thesis using BoardAt_board_eq [OF m(3)] by simp
qed

text \<open>
  Claim C9. In every reachable state and for every action that \<open>DoApplyAction\<close> applies to
  it (a legal push, a legal slide or a forfeiting action), each cell of the grid that is
  invalid before the action is invalid after it. The in-line walk stops before it writes to
  an invalid cell, the slide walk writes only to an empty destination and to the cell of
  the mover's marble, and a forfeiture does not touch the board. (That \<open>DoApplyAction\<close>
  does return in a reachable, non-terminal state, for every id of the action space, is
  \<open>DoApplyAction_returns\<close> below.)
\<close>

theorem invalid_cells_never_change:
  assumes "reachable s" and "DoApplyAction s a = Inr s'"
    and "in_grid r c" and "BoardAt s r c = kInvalid"
  shows "BoardAt s' r c = kInvalid"
  using assms(2-4) by (rule DoApplyAction_invalid_cells)

text \<open>
  Claim C5. When the action decodes to a move that is not valid for the player to move
  (every id of the action space decodes, by \<open>decode_encode\<close>), \<open>DoApplyAction\<close> leaves
  the board unchanged, the state becomes terminal, and \<open>Returns\<close> is \<open>{-1, +1}\<close> when
  player 0 submitted the action and \<open>{+1, -1}\<close> when player 1 did, whatever the board holds.
\<close>

theorem forfeiture_on_illegal_action:
  assumes "ActionToMove a = Inr m" and "IsValid m s = Inr False"
  shows "\<exists>s'. DoApplyAction s a = Inr s' \<and> board s' = board s \<and>
     (current_player s = 0 \<longrightarrow> IsTerminal s' \<and> Returns s' = [- 1, 1]) \<and>
     (current_player s = 1 \<longrightarrow> IsTerminal s' \<and> Returns s' = [1, - 1])"
  using DoApplyAction_invalid [OF assms]
  by (simp add: IsTerminal_def Returns_def kInvalidPlayer_def)

text \<open>
  Claim C3, as amended. An action that decodes to a legal move toggles the current player
  exactly once and increases the move counter by exactly one. An action that decodes to an
  illegal move forfeits the game and leaves both the current player and the move counter
  as they were: the forfeiting branch of \<open>DoApplyAction\<close> sets the outcome and returns.
\<close>

theorem turn_and_counter:
  assumes "ActionToMove a = Inr m" and "IsValid m s = Inr valid"
    and "current_player s = 0 \<or> current_player s = 1"
  shows "\<exists>s'. DoApplyAction s a = Inr s' \<and>
     (valid \<longrightarrow> current_player s' = 1 - current_player s \<and> num_moves s' = num_moves s + 1) \<and>
     (\<not> valid \<longrightarrow> current_player s' = current_player s \<and> num_moves s' = num_moves s)"
proof (cases valid)
  case True
  then have v: "IsValid m s = Inr True" using assms(2) by simp
  obtain s1 where s1: "Apply m s = Inr s1" "current_player s1 = current_player s"
    "num_moves s1 = num_moves s"
    using Apply_after_valid [OF v] by blast
  have "current_player s1 = 0 \<or> current_player s1 = 1" using s1(2) assms(3) by simp
  from DoApplyAction_valid [OF assms(1) v s1(1) this]
  show ?thesis using True s1 by auto
next
  case False
  then show ?thesis using DoApplyAction_invalid [OF assms(1), of s] assms(2) by simp
qed


section \<open>The initial state\<close>

lemma initial_board:
  "board NewInitialState =
    [kInvalid, kInvalid, kInvalid, kInvalid, kPlayer2, kPlayer2, kPlayer2, kPlayer2, kPlayer2,
     kInvalid, kInvalid, kInvalid, kPlayer2, kPlayer2, kPlayer2, kPlayer2, kPlayer2, kPlayer2,
     kInvalid, kInvalid, kEmpty, kEmpty, kPlayer2, kPlayer2, kPlayer2, kEmpty, kEmpty,
     kInvalid, kEmpty, kEmpty, kEmpty, kEmpty, kEmpty, kEmpty, kEmpty, kEmpty,
     kEmpty, kEmpty, kEmpty, kEmpty, kEmpty, kEmpty, kEmpty, kEmpty, kEmpty,
     kEmpty, kEmpty, kEmpty, kEmpty, kEmpty, kEmpty, kEmpty, kEmpty, kInvalid,
     kEmpty, kEmpty, kPlayer1, kPlayer1, kPlayer1, kEmpty, kEmpty, kInvalid, kInvalid,
     kPlayer1, kPlayer1, kPlayer1, kPlayer1, kPlayer1, kPlayer1, kInvalid, kInvalid, kInvalid,
     kPlayer1, kPlayer1, kPlayer1, kPlayer1, kPlayer1, kInvalid, kInvalid, kInvalid, kInvalid]"
  by (simp add: NewInitialState_def ABALONE_INIT_CLASSIC_def)

lemma initial_fields:
  "current_player NewInitialState = 0" "outcome NewInitialState = kInvalidPlayer"
  "num_moves NewInitialState = 0"
  by (simp_all add: NewInitialState_def)

lemma initial_not_terminal: "\<not> IsTerminal NewInitialState"
  by (simp add: IsTerminal_def initial_fields kHistoryMax_def)

lemma initial_mover: "PlayerToState (CurrentPlayer NewInitialState) = Inr kPlayer1"
  by (simp add: CurrentPlayer_def initial_not_terminal initial_fields PlayerToState_def
      kInvalidPlayer_def)

lemma mkMove_fields:
  "m_row (m_start (mkMove d r0 c0 r1 c1)) = r0" "m_column (m_start (mkMove d r0 c0 r1 c1)) = c0"
  "m_row (m_end (mkMove d r0 c0 r1 c1)) = r1" "m_column (m_end (mkMove d r0 c0 r1 c1)) = c1"
  "m_direction (mkMove d r0 c0 r1 c1) = d"
  by (simp_all add: mkMove_def)

lemma decode_0: "ActionToMove 0 = Inr (mkMove RIGHT 0 0 0 1)"
  by (simp add: ActionToMove_def Let_def c_mod_def c_div_def Direction_cast_def Offsets_def
      narrow_int_def mkMove_def kNumActionsPerDirection_def Direction_Last_def kNumCols_def)

lemma decode_1890: "ActionToMove 1890 = Inr (mkMove RIGHT 7 0 7 1)"
  by (simp add: ActionToMove_def Let_def c_mod_def c_div_def Direction_cast_def Offsets_def
      narrow_int_def mkMove_def kNumActionsPerDirection_def Direction_Last_def kNumCols_def)

lemma decode_1685: "ActionToMove 1685 = Inr (mkMove UP_RIGHT 6 2 5 3)"
  by (simp add: ActionToMove_def Let_def c_mod_def c_div_def Direction_cast_def Offsets_def
      narrow_int_def mkMove_def kNumActionsPerDirection_def Direction_Last_def kNumCols_def)

lemma decode_2430: "ActionToMove 2430 = Inr (mkMove RIGHT 9 0 9 1)"
  by (simp add: ActionToMove_def Let_def c_mod_def c_div_def Direction_cast_def Offsets_def
      narrow_int_def mkMove_def kNumActionsPerDirection_def Direction_Last_def kNumCols_def)

lemma initial_a1_right_invalid: "IsValid (mkMove RIGHT 0 0 0 1) NewInitialState = Inr False"
  unfolding IsValid_def Let_def mkMove_fields initial_mover
  by (simp add: kNumRows_def kNumCols_def BoardAt_def initial_board)

lemma initial_b1_right_invalid: "IsValid (mkMove RIGHT 7 0 7 1) NewInitialState = Inr False"
  unfolding IsValid_def Let_def mkMove_fields initial_mover line_content_loop_6
  by (simp add: kNumRows_def kNumCols_def BoardAt_def initial_board Offsets_def cell_at_def
      in_grid_def)

lemma initial_c3_up_right_valid: "IsValid (mkMove UP_RIGHT 6 2 5 3) NewInitialState = Inr True"
  unfolding IsValid_def Let_def mkMove_fields initial_mover line_content_loop_6
  by (simp add: kNumRows_def kNumCols_def BoardAt_def initial_board Offsets_def cell_at_def
      in_grid_def)

theorem turn_and_counter_witness:
  "ActionToMove 1685 = Inr (mkMove UP_RIGHT 6 2 5 3) \<and>
   IsValid (mkMove UP_RIGHT 6 2 5 3) NewInitialState = Inr True \<and>
   current_player NewInitialState = 0 \<and>
   (\<exists>s'. DoApplyAction NewInitialState 1685 = Inr s' \<and> current_player s' = 1 \<and>
         num_moves s' = 1)"
proof -
  have cp: "current_player NewInitialState = 0 \<or> current_player NewInitialState = 1"
    by (simp add: initial_fields)
  show ?thesis
    using turn_and_counter [OF decode_1685 initial_c3_up_right_valid cp]
      decode_1685 initial_c3_up_right_valid
    by (simp add: initial_fields)
qed

theorem forfeit_keeps_turn_counterexample:
  "\<not> IsTerminal NewInitialState \<and>
   DoApplyAction NewInitialState 0 = Inr (NewInitialState\<lparr>outcome := 1\<rparr>) \<and>
   current_player (NewInitialState\<lparr>outcome := 1\<rparr>) = current_player NewInitialState \<and>
   num_moves (NewInitialState\<lparr>outcome := 1\<rparr>) = num_moves NewInitialState"
  using DoApplyAction_invalid [OF decode_0 initial_a1_right_invalid] initial_not_terminal
  by (simp add: initial_fields)

theorem forfeiture_on_illegal_action_witness:
  "ActionToMove 1890 = Inr (mkMove RIGHT 7 0 7 1) \<and>
   IsValid (mkMove RIGHT 7 0 7 1) NewInitialState = Inr False \<and>
   (\<exists>s'. DoApplyAction NewInitialState 1890 = Inr s' \<and> board s' = board NewInitialState \<and>
         IsTerminal s' \<and> Returns s' = [- 1, 1])"
  using forfeiture_on_illegal_action [OF decode_1890 initial_b1_right_invalid]
    decode_1890 initial_b1_right_invalid
  by (simp add: initial_fields)

text \<open>
  Claim C8, as amended. In the classic layout the cells b1 and b2 both hold a marble of
  player 0 (row "b" holds six of them), so the single step of b1 in direction \<open>(0, +1)\<close>,
  action id 1890, is not legal. Applying it from the initial state forfeits the game: the
  board is unchanged, b1 and b2 still hold \<open>kPlayer1\<close>, the current player stays 0, the
  move counter stays 0, the outcome is player 1 and the state is terminal.
\<close>

theorem classic_b1_right_forfeits:
  "ActionToMove 1890 = Inr (mkMove RIGHT 7 0 7 1) \<and>
   BoardAt NewInitialState 7 0 = kPlayer1 \<and> BoardAt NewInitialState 7 1 = kPlayer1 \<and>
   IsValid (mkMove RIGHT 7 0 7 1) NewInitialState = Inr False \<and>
   DoApplyAction NewInitialState 1890 = Inr (NewInitialState\<lparr>outcome := 1\<rparr>) \<and>
   BoardAt (NewInitialState\<lparr>outcome := 1\<rparr>) 7 0 = kPlayer1 \<and>
   BoardAt (NewInitialState\<lparr>outcome := 1\<rparr>) 7 1 = kPlayer1 \<and>
   board (NewInitialState\<lparr>outcome := 1\<rparr>) = board NewInitialState \<and>
   current_player (NewInitialState\<lparr>outcome := 1\<rparr>) = 0 \<and>
   num_moves (NewInitialState\<lparr>outcome := 1\<rparr>) = 0 \<and>
   IsTerminal (NewInitialState\<lparr>outcome := 1\<rparr>) \<and>
   Returns (NewInitialState\<lparr>outcome := 1\<rparr>) = [- 1, 1]"
  using DoApplyAction_invalid [OF decode_1890 initial_b1_right_invalid]
    decode_1890 initial_b1_right_invalid
  by (simp add: initial_fields BoardAt_def initial_board kNumCols_def IsTerminal_def
      Returns_def kInvalidPlayer_def)

theorem classic_b1_right_forfeits_witness:
  "outcome (NewInitialState\<lparr>outcome := 1\<rparr>) \<noteq> kInvalidPlayer \<and>
   DoApplyAction NewInitialState 1890 = Inr (NewInitialState\<lparr>outcome := 1\<rparr>) \<and>
   IsTerminal (NewInitialState\<lparr>outcome := 1\<rparr>)"
  using classic_b1_right_forfeits by (simp add: kInvalidPlayer_def)

theorem classic_b1_right_counterexample:
  "ActionToMove 1890 = Inr (mkMove RIGHT 7 0 7 1) \<and>
   DoApplyAction NewInitialState 1890 = Inr (NewInitialState\<lparr>outcome := 1\<rparr>) \<and>
   \<not> (BoardAt (NewInitialState\<lparr>outcome := 1\<rparr>) 7 0 = kEmpty \<and>
      BoardAt (NewInitialState\<lparr>outcome := 1\<rparr>) 7 1 = kPlayer1 \<and>
      current_player (NewInitialState\<lparr>outcome := 1\<rparr>) = 1 \<and>
      num_moves (NewInitialState\<lparr>outcome := 1\<rparr>) = 1 \<and>
      \<not> IsTerminal (NewInitialState\<lparr>outcome := 1\<rparr>))"
  using DoApplyAction_invalid [OF decode_1890 initial_b1_right_invalid] decode_1890
  by (simp add: initial_fields)

theorem decode_out_of_range_counterexample:
  "\<not> (2430 < kNumCells * kNumActionsPerCell) \<and>
   ActionToMove 2430 = Inr (mkMove RIGHT 9 0 9 1)"
  using decode_2430
  by (simp add: kNumCells_def kNumActionsPerCell_def kNumRows_def kNumCols_def
      Direction_Last_def kNumActionsPerDirection_def)


section \<open>Decoding ids outside the action space\<close>

lemma Direction_cast_value:
  assumes "0 \<le> i" and "i < 6"
  shows "\<exists>d. Direction_cast i = Some d \<and> Direction_value d = i"
proof -
  have "i = 0 \<or> i = 1 \<or> i = 2 \<or> i = 3 \<or> i = 4 \<or> i = 5" using assms by arith
  then show ?thesis by (auto simp: Direction_cast_def)
qed

lemma Offsets_at_sister:
  "\<exists>f. Offsets_at ((Direction_value d + 1) mod 6) = Some f"
  "\<exists>b. Offsets_at ((Direction_value d + 2) mod 6) = Some b"
  by (cases d; simp add: Offsets_at_def Direction_cast_def)+

lemma decode_nonneg_shape:
  assumes "0 \<le> a"
  shows "\<exists>d e. Direction_value d = a div 5 mod 6 \<and>
     ActionToMove a = Inr \<lparr>m_direction = d,
        m_start = \<lparr>m_row = narrow_int (a div 270), m_column = a div 30 mod 9\<rparr>, m_end = e\<rparr>"
proof -
  obtain d where d: "Direction_cast (a div 5 mod 6) = Some d" "Direction_value d = a div 5 mod 6"
    using Direction_cast_value [of "a div 5 mod 6"] by auto
  obtain f b where fb: "Offsets_at ((Direction_value d + 1) mod 6) = Some f"
    "Offsets_at ((Direction_value d + 2) mod 6) = Some b"
    using Offsets_at_sister by blast
  have n: "narrow_int (a div 30 mod 9) = a div 30 mod 9"
    by (rule narrow_int_small) simp_all
  show ?thesis
    unfolding decode_fields [OF assms] d(1) option.case Let_def fb n
    using d(2) by auto
qed

lemma c_div_nonpos: "a \<le> 0 \<Longrightarrow> 0 < b \<Longrightarrow> c_div a b = - (- a div b)"
  by (cases "a = 0") (simp_all add: c_div_def)

lemma c_mod_nonpos: "a \<le> 0 \<Longrightarrow> 0 < b \<Longrightarrow> c_mod a b = - (- a mod b)"
  by (cases "a = 0") (simp_all add: c_mod_def)

text \<open>For a negative id the truncating operations give fields that are not positive. The
  decoder returns a move only when both the move type and the direction are zero, that is
  when the id is a multiple of 30; the move is then a single step to the right.\<close>

lemma decode_negative:
  assumes "a < 0"
  shows "ActionToMove a =
     (if c_mod a 30 = 0
      then Inr (mkMove RIGHT (narrow_int (c_div a 270)) (c_mod (c_div a 30) 9)
                  (narrow_int (c_div a 270)) (c_mod (c_div a 30) 9 + 1))
      else Inl UndefinedBehaviour)"
proof -
  define n where "n = - a"
  have n: "0 < n" "a = - n" using assms by (simp_all add: n_def)
  have e1: "n div 5 div 6 = n div 30" by (simp add: div_mult2_eq[symmetric])
  have e2: "n div 30 div 9 = n div 270" by (simp add: div_mult2_eq[symmetric])
  have q: "0 \<le> n div 5" "0 \<le> n div 30" using n(1) by simp_all
  have f: "c_mod a 5 = - (n mod 5)" "c_div a 5 = - (n div 5)"
    "c_mod (- (n div 5)) 6 = - (n div 5 mod 6)" "c_div (- (n div 5)) 6 = - (n div 30)"
    "c_mod (- (n div 30)) 9 = - (n div 30 mod 9)" "c_div (- (n div 30)) 9 = - (n div 270)"
    "c_mod a 30 = - (n mod 30)" "c_div a 30 = - (n div 30)" "c_div a 270 = - (n div 270)"
    using n q by (simp_all add: c_mod_nonpos c_div_nonpos e1 e2)
  have g1: "c_div (c_div a 5) 6 = c_div a 30" and g2: "c_div (c_div a 30) 9 = c_div a 270"
    unfolding f by simp_all
  define x y where "x = n div 5 mod 6" and "y = n mod 5"
  have xy: "0 \<le> x" "0 \<le> y" "n mod 30 = 5 * x + y"
    using zmod_zmult2_eq [of 6 n 5] by (simp_all add: x_def y_def)
  have "n mod 30 = 0 \<longleftrightarrow> y = 0 \<and> x = 0" using xy by linarith
  then have z: "n mod 30 = 0 \<longleftrightarrow> n mod 5 = 0 \<and> n div 5 mod 6 = 0"
    by (simp add: x_def y_def)
  have g4: "c_mod a 30 = 0 \<longleftrightarrow> c_mod a 5 = 0 \<and> c_mod (c_div a 5) 6 = 0"
    unfolding f using z by simp
  have g5: "c_mod a 5 \<le> 0" "c_mod (c_div a 5) 6 \<le> 0"
    "- 8 \<le> c_mod (c_div a 30) 9" "c_mod (c_div a 30) 9 \<le> 0"
    unfolding f by simp_all
  have s: "narrow_int (c_mod (c_div a 30) 9) = c_mod (c_div a 30) 9"
    "narrow_int (c_mod (c_div a 30) 9 + 1) = c_mod (c_div a 30) 9 + 1"
    using g5(3,4) by (auto simp: narrow_int_def)
  show ?thesis
  proof (cases "c_mod (c_div a 5) 6 = 0")
    case dir: True
    show ?thesis
    proof (cases "c_mod a 5 = 0")
      case True
      have "c_mod a 30 = 0" using g4 dir True by simp
      then show ?thesis
        by (simp add: ActionToMove_def Let_def kNumActionsPerDirection_def Direction_Last_def
            kNumCols_def dir True g1 g2 Direction_cast_def Offsets_def mkMove_def s)
    next
      case False
      then have t: "c_mod a 5 \<noteq> 0" "c_mod a 5 \<noteq> 1" "c_mod a 5 \<noteq> 2" "c_mod a 5 \<noteq> 3"
        "c_mod a 5 \<noteq> 4"
        using g5(1) by simp_all
      have "c_mod a 30 \<noteq> 0" using g4 False by simp
      then show ?thesis
        by (simp add: ActionToMove_def Let_def kNumActionsPerDirection_def Direction_Last_def
            kNumCols_def dir t Direction_cast_def)
    qed
  next
    case False
    then have "Direction_cast (c_mod (c_div a 5) 6) = None"
      using g5(2) by (auto simp: Direction_cast_def)
    moreover have "c_mod a 30 \<noteq> 0" using g4 False by simp
    ultimately show ?thesis
      by (simp add: ActionToMove_def Let_def kNumActionsPerDirection_def Direction_Last_def
          kNumCols_def)
  qed
qed

lemma decode_negative_start:
  assumes "a < 0" and "c_mod a 30 = 0"
  shows "c_div a 270 \<le> 0" and "c_mod (c_div a 30) 9 \<le> 0"
    and "c_div a 270 < 0 \<or> c_mod (c_div a 30) 9 < 0"
proof -
  define n where "n = - a"
  have n: "0 < n" "a = - n" using assms(1) by (simp_all add: n_def)
  have q: "0 \<le> n div 30" using n(1) by simp
  have f: "c_mod a 30 = - (n mod 30)" "c_div a 30 = - (n div 30)" "c_div a 270 = - (n div 270)"
    "c_mod (- (n div 30)) 9 = - (n div 30 mod 9)"
    using n q by (simp_all add: c_mod_nonpos c_div_nonpos)
  have m: "n mod 30 = 0" using assms(2) unfolding f by simp
  show "c_div a 270 \<le> 0" "c_mod (c_div a 30) 9 \<le> 0"
    unfolding f using n(1) by simp_all
  define x y where "x = n div 270" and "y = n div 30 mod 9"
  have "n = 30 * (n div 30)" using m by (simp add: mod_eq_0_iff_dvd)
  moreover have "n div 30 div 9 = n div 270" by (simp add: div_mult2_eq[symmetric])
  then have "n div 30 = 9 * x + y"
    using mult_div_mod_eq [of 9 "n div 30"] by (simp add: x_def y_def)
  moreover have "0 \<le> x" "0 \<le> y" using n(1) by (simp_all add: x_def y_def)
  ultimately have "0 < x \<or> 0 < y" using n(1) by linarith
  then have "0 < n div 270 \<or> 0 < n div 30 mod 9" by (simp add: x_def y_def)
  then show "c_div a 270 < 0 \<or> c_mod (c_div a 30) 9 < 0" unfolding f by simp
qed

text \<open>
  Claim C6, as amended. \<open>ActionToMove\<close> has no range check and raises no fatal error for
  any id outside the action space.
  \<^item> For an id at or above the size of the action space it returns a move; the start row of
    that move is \<open>id / 270\<close> stored into an \<open>int\<close>, which is at least 9 for every id below
    \<open>270 * 2^31\<close>, so that \<open>IsValid\<close> rejects the move and \<open>DoApplyAction\<close> handles the
    action as a forfeiture.
  \<^item> For a negative id that is a multiple of 30 it returns the single step to the right
    whose start has the row \<open>id / 270\<close> and the column \<open>(id / 30) % 9\<close> (the truncating
    operators of C++: neither is positive and one of them is negative); for every such id
    not below \<open>-270 * 2^31\<close> \<open>IsValid\<close> rejects the move and \<open>DoApplyAction\<close> handles the
    action as a forfeiture.
  \<^item> For every other negative id the direction or the move type is negative: the decoder
    reads \<open>Offsets\<close> at a negative index, or no \<open>case\<close> of its \<open>switch\<close> assigns \<open>m_end\<close>
    and the move is returned with an indeterminate end. The source has no check that
    aborts there either; the model returns \<open>UndefinedBehaviour\<close>.
\<close>

theorem decode_without_range_check:
  assumes "a < 0 \<or> kNumCells * kNumActionsPerCell \<le> a"
  shows "ActionToMove a \<noteq> Inl SpielFatalError \<and>
     (kNumCells * kNumActionsPerCell \<le> a \<longrightarrow>
        (\<exists>m. ActionToMove a = Inr m \<and>
           m_row (m_start m) = narrow_int (a div 270) \<and>
           m_column (m_start m) = a div 30 mod 9 \<and>
           Direction_value (m_direction m) = a div 5 mod 6 \<and>
           (a < 270 * 2 ^ 31 \<longrightarrow>
              kNumRows \<le> m_row (m_start m) \<and> IsValid m s = Inr False \<and>
              DoApplyAction s a = Inr (s\<lparr>outcome := 1 - current_player s\<rparr>)))) \<and>
     (a < 0 \<and> c_mod a 30 = 0 \<longrightarrow>
        ActionToMove a
          = Inr (mkMove RIGHT (narrow_int (c_div a 270)) (c_mod (c_div a 30) 9)
                   (narrow_int (c_div a 270)) (c_mod (c_div a 30) 9 + 1)) \<and>
        c_div a 270 \<le> 0 \<and> c_mod (c_div a 30) 9 \<le> 0 \<and>
        (c_div a 270 < 0 \<or> c_mod (c_div a 30) 9 < 0) \<and>
        (- (270 * 2 ^ 31) \<le> a \<longrightarrow>
           IsValid (mkMove RIGHT (narrow_int (c_div a 270)) (c_mod (c_div a 30) 9)
                      (narrow_int (c_div a 270)) (c_mod (c_div a 30) 9 + 1)) s = Inr False \<and>
           DoApplyAction s a = Inr (s\<lparr>outcome := 1 - current_player s\<rparr>))) \<and>
     (a < 0 \<and> c_mod a 30 \<noteq> 0 \<longrightarrow> ActionToMove a = Inl UndefinedBehaviour)"
proof -
  have top: "\<exists>m. ActionToMove a = Inr m \<and>
           m_row (m_start m) = narrow_int (a div 270) \<and>
           m_column (m_start m) = a div 30 mod 9 \<and>
           Direction_value (m_direction m) = a div 5 mod 6 \<and>
           (a < 270 * 2 ^ 31 \<longrightarrow>
              kNumRows \<le> m_row (m_start m) \<and> IsValid m s = Inr False \<and>
              DoApplyAction s a = Inr (s\<lparr>outcome := 1 - current_player s\<rparr>))"
    if h: "kNumCells * kNumActionsPerCell \<le> a"
  proof -
    have a: "2430 \<le> a"
      using h
      by (simp add: kNumCells_def kNumActionsPerCell_def kNumRows_def kNumCols_def
          Direction_Last_def kNumActionsPerDirection_def)
    then have a0: "0 \<le> a" by simp
    obtain d e where m: "Direction_value d = a div 5 mod 6"
       "ActionToMove a = Inr \<lparr>m_direction = d,
          m_start = \<lparr>m_row = narrow_int (a div 270), m_column = a div 30 mod 9\<rparr>, m_end = e\<rparr>"
      using decode_nonneg_shape [OF a0] by blast
    let ?m = "\<lparr>m_direction = d,
          m_start = \<lparr>m_row = narrow_int (a div 270), m_column = a div 30 mod 9\<rparr>, m_end = e\<rparr>"
    have big: "a < 270 * 2 ^ 31 \<longrightarrow> kNumRows \<le> m_row (m_start ?m) \<and> IsValid ?m s = Inr False"
    proof
      assume b: "a < 270 * 2 ^ 31"
      have "9 \<le> a div 270" using a by arith
      moreover have "a div 270 < 2 ^ 31" using b by simp
      ultimately have r: "narrow_int (a div 270) = a div 270" "9 \<le> a div 270"
        by (simp_all add: narrow_int_def)
      then show "kNumRows \<le> m_row (m_start ?m) \<and> IsValid ?m s = Inr False"
        by (simp add: IsValid_def kNumRows_def)
    qed
    show ?thesis
      using m big DoApplyAction_invalid [OF m(2), of s] by auto
  qed
  let ?n = "mkMove RIGHT (narrow_int (c_div a 270)) (c_mod (c_div a 30) 9)
                   (narrow_int (c_div a 270)) (c_mod (c_div a 30) 9 + 1)"
  have low: "IsValid ?n s = Inr False \<and>
           DoApplyAction s a = Inr (s\<lparr>outcome := 1 - current_player s\<rparr>)"
    if h: "a < 0" "c_mod a 30 = 0" "- (270 * 2 ^ 31) \<le> a"
  proof -
    have d: "ActionToMove a = Inr ?n" using decode_negative [OF h(1)] h(2) by simp
    have r: "- (2 ^ 31) \<le> c_div a 270"
      using h(1,3) by (simp add: c_div_nonpos)
    have n: "narrow_int (c_div a 270) = c_div a 270"
      using r decode_negative_start(1) [OF h(1,2)] by (simp add: narrow_int_def)
    have v: "IsValid ?n s = Inr False"
      using decode_negative_start [OF h(1,2)]
      by (auto simp: IsValid_def mkMove_fields n)
    show ?thesis using v DoApplyAction_invalid [OF d v] by simp
  qed
  have neg: "ActionToMove a \<noteq> Inl SpielFatalError" if "a < 0"
    using decode_negative [OF that] by (simp split: if_splits)
  have "ActionToMove a \<noteq> Inl SpielFatalError"
    using assms top neg by auto
  then show ?thesis
    using top low decode_negative decode_negative_start by auto
qed

theorem decode_without_range_check_witness:
  "kNumCells * kNumActionsPerCell \<le> 2430 \<and> (2430::int) < 270 * 2 ^ 31 \<and>
   (\<exists>m. ActionToMove 2430 = Inr m \<and> m_row (m_start m) = 9 \<and>
        IsValid m NewInitialState = Inr False \<and>
        DoApplyAction NewInitialState 2430 = Inr (NewInitialState\<lparr>outcome := 1\<rparr>)) \<and>
   (- 30::int) < 0 \<and> c_mod (- 30) 30 = 0 \<and> - (270 * 2 ^ 31) \<le> (- 30::int) \<and>
   ActionToMove (- 30) = Inr (mkMove RIGHT 0 (- 1) 0 0) \<and>
   IsValid (mkMove RIGHT 0 (- 1) 0 0) NewInitialState = Inr False \<and>
   DoApplyAction NewInitialState (- 30) = Inr (NewInitialState\<lparr>outcome := 1\<rparr>) \<and>
   (- 31::int) < 0 \<and> c_mod (- 31) 30 \<noteq> 0 \<and>
   ActionToMove (- 31) = Inl UndefinedBehaviour"
proof -
  have h: "kNumCells * kNumActionsPerCell \<le> 2430"
    by (simp add: kNumCells_def kNumActionsPerCell_def kNumRows_def kNumCols_def
        Direction_Last_def kNumActionsPerDirection_def)
  have n: "narrow_int 9 = 9" "narrow_int 0 = 0" by (simp_all add: narrow_int_def)
  have c: "c_mod (- 30) 30 = 0" "c_div (- 30) 270 = 0" "c_div (- 30) 30 = - 1"
    "c_mod (- 1) 9 = - 1" "c_mod (- 31) 30 = - 1"
    by (simp_all add: c_mod_def c_div_def)
  have top: "\<exists>m. ActionToMove 2430 = Inr m \<and> m_row (m_start m) = 9 \<and>
        IsValid m NewInitialState = Inr False \<and>
        DoApplyAction NewInitialState 2430 = Inr (NewInitialState\<lparr>outcome := 1\<rparr>)"
    using decode_without_range_check [of 2430 NewInitialState] h
    by (auto simp: initial_fields n)
  have low: "ActionToMove (- 30) = Inr (mkMove RIGHT 0 (- 1) 0 0) \<and>
       IsValid (mkMove RIGHT 0 (- 1) 0 0) NewInitialState = Inr False \<and>
       DoApplyAction NewInitialState (- 30) = Inr (NewInitialState\<lparr>outcome := 1\<rparr>)"
    using decode_without_range_check [of "- 30" NewInitialState]
    by (simp add: c n initial_fields)
  have ub: "ActionToMove (- 31) = Inl UndefinedBehaviour"
    using decode_without_range_check [of "- 31" NewInitialState]
    by (simp add: c)
  show ?thesis using h top low ub by (simp add: c)
qed


section \<open>Slides along a straight line, and actions of the action space\<close>

lemma all_less_Suc_shift: "(\<forall>i<Suc n. P i) \<longleftrightarrow> P 0 \<and> (\<forall>i<n. P (Suc i))"
  by (metis less_Suc_eq_0_disj Suc_less_eq zero_less_Suc)

lemma IsValidSlide_loop_in_grid:
  "(\<forall>i<n. in_grid (r + int i * sl) (c + int i * sc)) \<Longrightarrow>
   IsValidSlide_loop s n player direction r c sl sc =
     Inr (\<forall>i<n. BoardAt s (r + int i * sl) (c + int i * sc) = player \<and>
               in_grid (r + int i * sl + m_row direction) (c + int i * sc + m_column direction) \<and>
               BoardAt s (r + int i * sl + m_row direction) (c + int i * sc + m_column direction)
                 = kEmpty)"
proof (induction n arbitrary: r c)
  case 0
  then show ?case by simp
next
  case (Suc n)
  have g0: "in_grid r c" using Suc.prems by (auto dest: spec [of _ 0])
  have gs: "\<forall>i<n. in_grid (r + sl + int i * sl) (c + sc + int i * sc)"
  proof (intro allI impI)
    fix i assume "i < n"
    then have "in_grid (r + int (Suc i) * sl) (c + int (Suc i) * sc)" using Suc.prems by auto
    then show "in_grid (r + sl + int i * sl) (c + sc + int i * sc)" by (simp add: algebra_simps)
  qed
  have pos: "\<And>i. r + int (Suc i) * sl = r + sl + int i * sl"
    "\<And>i. c + int (Suc i) * sc = c + sc + int i * sc"
    by (simp_all add: algebra_simps)
  show ?case
    unfolding all_less_Suc_shift [of n] pos
    using g0 in_grid_index_ok [OF g0] Suc.IH [OF gs]
    by (auto simp: Let_def in_grid_def)
qed


lemma fold_flag:
  "fold (\<lambda>x v. if P x then True else v) xs b \<longleftrightarrow> b \<or> (\<exists>x\<in>set xs. P x)"
  by (induction xs arbitrary: b) auto

lemma all_nat_int_range:
  "(\<forall>i<nat z. P (int i)) \<longleftrightarrow> (\<forall>i\<in>{0 ..< z}. P i)"
proof
  assume a: "\<forall>i<nat z. P (int i)"
  show "\<forall>i\<in>{0 ..< z}. P i"
  proof
    fix i assume "i \<in> {0 ..< z}"
    then have "nat i < nat z" "int (nat i) = i" by auto
    then show "P i" using a by metis
  qed
next
  assume a: "\<forall>i\<in>{0 ..< z}. P i"
  show "\<forall>i<nat z. P (int i)"
  proof (intro allI impI)
    fix i assume "i < nat z"
    then have "int i \<in> {0 ..< z}" by auto
    then show "P (int i)" using a by blast
  qed
qed

text \<open>
  When every walked position lies in the grid, as it does for every move the decoder
  produces, the slide validator computes exactly the slide rule of the specification.
\<close>

lemma IsValidSlide_in_grid_walk:
  assumes st: "in_grid (m_row (m_start m)) (m_column (m_start m))"
    and own: "is_marble (BoardAt s (m_row (m_start m)) (m_column (m_start m)))"
    and walk: "\<forall>i\<in>{0 ..< slide_size m}.
        in_grid (m_row (m_start m) + i * fst (slide_step m))
                (m_column (m_start m) + i * snd (slide_step m))"
  shows "IsValidSlide m s = Inr (slide_legal s m)"
proof -
  let ?r = "m_row (m_start m)" and ?c = "m_column (m_start m)"
  let ?sl = "fst (slide_step m)" and ?sc = "snd (slide_step m)"
  have pl: "BoardAt s ?r ?c \<noteq> kEmpty" "BoardAt s ?r ?c \<noteq> kInvalid"
    using own by (auto simp: is_marble_def)
  have step: "max (min (m_row (m_end m) - ?r) 1) (- 1) = ?sl"
    "max (min (m_column (m_end m) - ?c) 1) (- 1) = ?sc"
    by (simp_all add: slide_step_def)
  have size: "max (\<bar>m_column (m_end m) - ?c\<bar> + 1) (\<bar>m_row (m_end m) - ?r\<bar> + 1) = slide_size m"
    by (simp add: slide_size_def)
  have dirs: "fold (\<lambda>dir v. if m_row (Offsets dir) = ?sl \<and> m_column (Offsets dir) = ?sc
                               then True else v) all_directions False
      \<longleftrightarrow> (\<exists>d\<in>set all_directions. (m_row (Offsets d), m_column (Offsets d)) = slide_step m)"
    unfolding fold_flag by (auto simp: prod_eq_iff)
  have w: "\<forall>i<nat (slide_size m). in_grid (?r + int i * ?sl) (?c + int i * ?sc)"
    using walk unfolding all_nat_int_range [of "slide_size m" "\<lambda>i. in_grid (?r + i * ?sl) (?c + i * ?sc)"] .
  have loop: "IsValidSlide_loop s (nat (slide_size m)) (BoardAt s ?r ?c) (Offsets (m_direction m))
       ?r ?c ?sl ?sc =
     Inr (\<forall>i\<in>{0 ..< slide_size m}.
        BoardAt s (?r + i * ?sl) (?c + i * ?sc) = BoardAt s ?r ?c \<and>
        in_grid (?r + i * ?sl + m_row (Offsets (m_direction m)))
                (?c + i * ?sc + m_column (Offsets (m_direction m))) \<and>
        BoardAt s (?r + i * ?sl + m_row (Offsets (m_direction m)))
                  (?c + i * ?sc + m_column (Offsets (m_direction m))) = kEmpty)"
    unfolding IsValidSlide_loop_in_grid [OF w]
      all_nat_int_range [of "slide_size m" "\<lambda>i. BoardAt s (?r + i * ?sl) (?c + i * ?sc) = BoardAt s ?r ?c \<and>
        in_grid (?r + i * ?sl + m_row (Offsets (m_direction m)))
                (?c + i * ?sc + m_column (Offsets (m_direction m))) \<and>
        BoardAt s (?r + i * ?sl + m_row (Offsets (m_direction m)))
                  (?c + i * ?sc + m_column (Offsets (m_direction m))) = kEmpty"]
    by simp
  have cells: "\<And>i. i \<in> {0 ..< slide_size m} \<Longrightarrow>
      cell_at s (?r + i * ?sl) (?c + i * ?sc) = BoardAt s (?r + i * ?sl) (?c + i * ?sc)"
    using walk by (simp add: cell_at_def)
  show ?thesis
    unfolding IsValidSlide_def Let_def step size dirs loop
    using in_grid_index_ok [OF st] pl cells
    by (auto simp: slide_legal_def)
qed

lemma IsValid_slide_in_grid_walk:
  assumes st: "in_grid (m_row (m_start m)) (m_column (m_start m))"
    and en: "in_grid (m_row (m_end m)) (m_column (m_end m))"
    and mv: "mover_at_start s m"
    and sl: "\<not> is_inline m"
    and walk: "\<forall>i\<in>{0 ..< slide_size m}.
        in_grid (m_row (m_start m) + i * fst (slide_step m))
                (m_column (m_start m) + i * snd (slide_step m))"
  shows "IsValid m s = Inr (slide_legal s m)"
proof -
  have p: "PlayerToState (CurrentPlayer s)
      = Inr (BoardAt s (m_row (m_start m)) (m_column (m_start m)))"
    and own: "is_marble (BoardAt s (m_row (m_start m)) (m_column (m_start m)))"
    using mv by (simp_all add: mover_at_start_def)
  have v: "m_row (Offsets (m_direction m)) \<noteq> m_row (m_end m) - m_row (m_start m) \<or>
        m_column (Offsets (m_direction m)) \<noteq> m_column (m_end m) - m_column (m_start m)"
    using sl by (auto simp: is_inline_def)
  have b: "\<not> (m_row (m_start m) < 0 \<or> m_row (m_start m) \<ge> kNumRows)"
    "\<not> (m_column (m_start m) < 0 \<or> m_column (m_start m) \<ge> kNumCols)"
    "\<not> (m_row (m_end m) < 0 \<or> m_row (m_end m) \<ge> kNumRows)"
    "\<not> (m_column (m_end m) < 0 \<or> m_column (m_end m) \<ge> kNumCols)"
    using st en by (auto simp: in_grid_def)
  show ?thesis
    unfolding IsValid_def Let_def
    using v by (simp only: b if_False p sum.case simp_thms if_True
        IsValidSlide_in_grid_walk [OF st own walk])
qed


text \<open>
  The decoder only produces straight lines: \<open>end = start + k * offset\<close> with \<open>k\<close> one or
  two. Their walk stays between the two endpoints.
\<close>

lemma straight_walk_in_grid:
  assumes st: "in_grid (m_row (m_start m)) (m_column (m_start m))"
    and en: "in_grid (m_row (m_end m)) (m_column (m_end m))"
    and k: "k = 1 \<or> k = 2"
    and e: "m_row (m_end m) = m_row (m_start m) + k * m_row (Offsets d)"
       "m_column (m_end m) = m_column (m_start m) + k * m_column (Offsets d)"
  shows "\<forall>i\<in>{0 ..< slide_size m}.
        in_grid (m_row (m_start m) + i * fst (slide_step m))
                (m_column (m_start m) + i * snd (slide_step m))"
proof
  fix i assume i: "i \<in> {0 ..< slide_size m}"
  have o: "(m_row (Offsets d) = 0 \<or> m_row (Offsets d) = 1 \<or> m_row (Offsets d) = - 1)"
    "(m_column (Offsets d) = 0 \<or> m_column (Offsets d) = 1 \<or> m_column (Offsets d) = - 1)"
    "m_row (Offsets d) \<noteq> 0 \<or> m_column (Offsets d) \<noteq> 0"
    by (cases d; simp add: Offsets_def)+
  have step: "slide_step m = (m_row (Offsets d), m_column (Offsets d))"
    using k o(1,2) unfolding slide_step_def e by auto
  have size: "slide_size m = k + 1"
    using k o unfolding slide_size_def e by auto
  have "i = 0 \<or> i = k \<or> (i = 1 \<and> k = 2)" using i k unfolding size by auto
  then show "in_grid (m_row (m_start m) + i * fst (slide_step m))
                (m_column (m_start m) + i * snd (slide_step m))"
    unfolding step using st en o(1,2) unfolding e in_grid_def by auto
qed

lemma Offsets_at_Some: "Offsets_at i = Some x \<Longrightarrow> \<exists>d. x = Offsets d"
  by (auto simp: Offsets_at_def)

lemma decode_straight:
  assumes "0 \<le> a" and "a < 2430"
  shows "\<exists>m d k. ActionToMove a = Inr m \<and> (k = 1 \<or> k = 2) \<and>
     in_grid (m_row (m_start m)) (m_column (m_start m)) \<and>
     m_row (m_end m) = m_row (m_start m) + k * m_row (Offsets d) \<and>
     m_column (m_end m) = m_column (m_start m) + k * m_column (Offsets d)"
proof -
  obtain d where d: "Direction_cast (a div 5 mod 6) = Some d"
    using Direction_cast_value [of "a div 5 mod 6"] by auto
  obtain f b where fb: "Offsets_at ((Direction_value d + 1) mod 6) = Some f"
    "Offsets_at ((Direction_value d + 2) mod 6) = Some b"
    using Offsets_at_sister by blast
  obtain df db where dfb: "f = Offsets df" "b = Offsets db"
    using fb Offsets_at_Some by blast
  have r: "0 \<le> a div 270" "a div 270 < 9" using assms by arith+
  have c: "0 \<le> a div 30 mod 9" "a div 30 mod 9 < 9" by simp_all
  have o: "\<And>x. - 1 \<le> m_row (Offsets x) \<and> m_row (Offsets x) \<le> 1 \<and>
                - 1 \<le> m_column (Offsets x) \<and> m_column (Offsets x) \<le> 1"
    subgoal for x by (cases x) (simp_all add: Offsets_def)
    done
  have n: "narrow_int (a div 270) = a div 270" "narrow_int (a div 30 mod 9) = a div 30 mod 9"
    "\<And>x. narrow_int (a div 270 + m_row (Offsets x)) = a div 270 + m_row (Offsets x)"
    "\<And>x. narrow_int (a div 270 + 2 * m_row (Offsets x)) = a div 270 + 2 * m_row (Offsets x)"
    "\<And>x. narrow_int (a div 30 mod 9 + m_column (Offsets x)) = a div 30 mod 9 + m_column (Offsets x)"
    "\<And>x. narrow_int (a div 30 mod 9 + 2 * m_column (Offsets x))
          = a div 30 mod 9 + 2 * m_column (Offsets x)"
  proof -
    show "narrow_int (a div 270) = a div 270" "narrow_int (a div 30 mod 9) = a div 30 mod 9"
      using r c by (auto intro!: narrow_int_small)
    fix x
    show "narrow_int (a div 270 + m_row (Offsets x)) = a div 270 + m_row (Offsets x)"
      "narrow_int (a div 270 + 2 * m_row (Offsets x)) = a div 270 + 2 * m_row (Offsets x)"
      "narrow_int (a div 30 mod 9 + m_column (Offsets x)) = a div 30 mod 9 + m_column (Offsets x)"
      "narrow_int (a div 30 mod 9 + 2 * m_column (Offsets x))
          = a div 30 mod 9 + 2 * m_column (Offsets x)"
      using r c o [of x] by (auto intro!: narrow_int_small)
  qed
  have g: "in_grid (a div 270) (a div 30 mod 9)"
    using r c by (simp add: in_grid_def kNumRows_def kNumCols_def)
  let ?mv = "\<lambda>k x. \<lparr>m_direction = d,
           m_start = \<lparr>m_row = a div 270, m_column = a div 30 mod 9\<rparr>,
           m_end = \<lparr>m_row = a div 270 + k * m_row (Offsets x),
                    m_column = a div 30 mod 9 + k * m_column (Offsets x)\<rparr>\<rparr>"
  have "ActionToMove a = Inr (?mv 1 d) \<or> ActionToMove a = Inr (?mv 1 df) \<or>
        ActionToMove a = Inr (?mv 1 db) \<or> ActionToMove a = Inr (?mv 2 df) \<or>
        ActionToMove a = Inr (?mv 2 db)"
    unfolding decode_fields [OF assms(1)] d option.case Let_def fb dfb
    by (simp add: n)
  then have "\<exists>k x. (k = 1 \<or> k = 2) \<and> ActionToMove a = Inr (?mv k x)"
    by (elim disjE) blast+
  then obtain k x where kx: "k = 1 \<or> k = 2" "ActionToMove a = Inr (?mv k x)" by blast
  show ?thesis
    apply (rule exI [of _ "?mv k x"], rule exI [of _ x], rule exI [of _ k])
    using kx g by simp
qed

lemma IsValid_decoded_returns:
  assumes a: "0 \<le> a" "a < 2430" and m: "ActionToMove a = Inr m"
    and nt: "\<not> IsTerminal s" and cp: "current_player s = 0 \<or> current_player s = 1"
  shows "\<exists>b. IsValid m s = Inr b"
proof -
  obtain d k where s: "k = 1 \<or> k = 2"
     "in_grid (m_row (m_start m)) (m_column (m_start m))"
     "m_row (m_end m) = m_row (m_start m) + k * m_row (Offsets d)"
     "m_column (m_end m) = m_column (m_start m) + k * m_column (Offsets d)"
    using decode_straight [OF a] m by auto
  obtain x where x: "PlayerToState (CurrentPlayer s) = Inr x" "is_marble x"
    using nt cp by (auto simp: CurrentPlayer_def PlayerToState_def kInvalidPlayer_def is_marble_def)
  show ?thesis
  proof (cases "in_grid (m_row (m_end m)) (m_column (m_end m)) \<and>
      BoardAt s (m_row (m_start m)) (m_column (m_start m)) = x")
    case True
    then have mv: "mover_at_start s m" using x by (simp add: mover_at_start_def)
    show ?thesis
    proof (cases "is_inline m")
      case il: True
      show ?thesis using IsValid_inline [OF s(2) _ mv il] True by simp
    next
      case False
      show ?thesis
        using IsValid_slide_in_grid_walk [OF s(2) _ mv False
            straight_walk_in_grid [OF s(2) _ s(1,3,4)]] True by simp
    qed
  next
    case False
    then have "IsValid m s = Inr False"
      using x(1) unfolding IsValid_def Let_def by (auto simp: in_grid_def)
    then show ?thesis by blast
  qed
qed


lemma decode_2016: "ActionToMove 2016 = Inr (mkMove UP_RIGHT 7 4 6 4)"
  by (simp add: ActionToMove_def Let_def c_mod_def c_div_def Direction_cast_def Offsets_def
      Offsets_at_def narrow_int_def mkMove_def kNumActionsPerDirection_def Direction_Last_def
      kNumCols_def)






text \<open>
  Every reachable state has a board of 81 cells and player 0 or 1 to move, and in a
  reachable state that is not terminal every action of the action space is applied without
  a fatal error, without an out-of-bounds access and with a walk that ends.
\<close>

lemma DoApplyAction_state_invariant:
  assumes "DoApplyAction s a = Inr s'"
  shows "well_formed s' = well_formed s"
    and "current_player s = 0 \<or> current_player s = 1
         \<Longrightarrow> current_player s' = 0 \<or> current_player s' = 1"
proof -
  from DoApplyAction_cases [OF assms]
  have "well_formed s' = well_formed s \<and>
    (current_player s = 0 \<or> current_player s = 1
       \<longrightarrow> current_player s' = 0 \<or> current_player s' = 1)"
  proof
    assume "\<exists>m. ActionToMove a = Inr m \<and> IsValid m s = Inr False \<and>
              s' = s\<lparr>outcome := 1 - current_player s\<rparr>"
    then show ?thesis by (auto simp: well_formed_def)
  next
    assume "\<exists>m s1. ActionToMove a = Inr m \<and> IsValid m s = Inr True \<and> Apply m s = Inr s1 \<and>
              board s' = board s1 \<and> current_player s' = 1 - current_player s1 \<and>
              num_moves s' = num_moves s1 + 1"
    then obtain m s1 where m: "IsValid m s = Inr True" "Apply m s = Inr s1"
      "board s' = board s1" "current_player s' = 1 - current_player s1"
      by blast
    have "well_formed s1 = well_formed s" "current_player s1 = current_player s"
      using Apply_after_valid [OF m(1)] m(2) by auto
    then show ?thesis using m(3,4) by (auto simp: well_formed_def)
  qed
  then show "well_formed s' = well_formed s"
    and "current_player s = 0 \<or> current_player s = 1
         \<Longrightarrow> current_player s' = 0 \<or> current_player s' = 1"
    by blast+
qed

lemma reachable_invariant:
  "reachable s \<Longrightarrow> well_formed s \<and> (current_player s = 0 \<or> current_player s = 1)"
proof (induction rule: reachable.induct)
  case reachable_init
  show ?case by (simp add: well_formed_length initial_board initial_fields)
next
  case (reachable_step s a s')
  then show ?case using DoApplyAction_state_invariant [of s a s'] by blast
qed

lemma DoApplyAction_returns:
  assumes "reachable s" and "\<not> IsTerminal s"
    and "0 \<le> a" and "a < kNumCells * kNumActionsPerCell"
  shows "\<exists>s'. DoApplyAction s a = Inr s'"
proof -
  have a: "a < 2430"
    using assms(4)
    by (simp add: kNumCells_def kNumActionsPerCell_def kNumRows_def kNumCols_def
        Direction_Last_def kNumActionsPerDirection_def)
  obtain m where m: "ActionToMove a = Inr m" using decode_encode [OF assms(3) a] by blast
  have cp: "current_player s = 0 \<or> current_player s = 1"
    using reachable_invariant [OF assms(1)] by simp
  obtain b where b: "IsValid m s = Inr b"
    using IsValid_decoded_returns [OF assms(3) a m assms(2) cp] by blast
  show ?thesis
  proof (cases b)
    case True
    then have v: "IsValid m s = Inr True" using b by simp
    obtain s1 where s1: "Apply m s = Inr s1" "current_player s1 = current_player s"
      using Apply_after_valid [OF v] by blast
    have "current_player s1 = 0 \<or> current_player s1 = 1" using s1(2) cp by simp
    from DoApplyAction_valid [OF m v s1(1) this] show ?thesis by blast
  next
    case False
    then show ?thesis using DoApplyAction_invalid [OF m, of s] b by simp
  qed
qed

section \<open>The marble count of Returns, and a game played from the classic layout\<close>

text \<open>
  The two counters of \<open>Returns\<close> are the numbers of cells of the board that hold the
  marbles of the two players.
\<close>

lemma upto_0_8: "[0..8::int] = map int [0..<9]"
proof -
  have "[0..<9] = [0,1,2,3,4,5,6,7,8::nat]" by (simp add: upt_rec)
  moreover have "[0..8::int] = [0,1,2,3,4,5,6,7,8]" by (simp add: upto.simps [of 0 8] upto.simps [of 1 8] upto_rec_numeral)
  ultimately show ?thesis by simp
qed

lemma fold_tally:
  "fold tally xs (a, b) = (a + int (count_list xs kPlayer1), b + int (count_list xs kPlayer2))"
  by (induction xs arbitrary: a b) (auto simp: tally_def)

lemma take_drop_map_nth:
  "k + m \<le> length xs \<Longrightarrow> take m (drop k xs) = map (\<lambda>c. xs ! (k + c)) [0..<m]"
  by (auto simp: list_eq_iff_nth_eq)

lemma fold_rows:
  "n * m \<le> length xs \<Longrightarrow>
   fold (\<lambda>l cnt. fold (\<lambda>c cnt. f (xs ! (l * m + c)) cnt) [0..<m] cnt) [0..<n] acc
     = fold f (take (n * m) xs) acc"
proof (induction n arbitrary: acc)
  case 0
  then show ?case by simp
next
  case (Suc n)
  have le: "n * m \<le> length xs" "n * m + m \<le> length xs" using Suc.prems by simp_all
  have "Suc n * m = n * m + m" by simp
  then have t: "take (Suc n * m) xs = take (n * m) xs @ take m (drop (n * m) xs)"
    by (simp only: take_add)
  have inner: "fold (\<lambda>c cnt. f (xs ! (n * m + c)) cnt) [0..<m] a
      = fold f (take m (drop (n * m) xs)) a" for a
    unfolding take_drop_map_nth [OF le(2)] by (simp add: fold_map comp_def)
  show ?case
    unfolding t using Suc.IH [OF le(1)] by (simp add: inner)
qed

lemma ballCount_marbles:
  assumes "well_formed s"
  shows "ballCount s = (int (marbles s kPlayer1), int (marbles s kPlayer2))"
proof -
  have len: "length (board s) = 81" using assms by (simp add: well_formed_length)
  have idx: "\<And>l c. nat (int l * 9 + int c) = l * 9 + c" by (simp add: nat_add_distrib nat_mult_distrib)
  have "ballCount s =
     fold (\<lambda>l cnt. fold (\<lambda>c cnt. tally (board s ! (l * 9 + c)) cnt) [0..<9] cnt) [0..<9] (0, 0)"
    unfolding ballCount_def kNumRows_def kNumCols_def
    by (simp add: upto_0_8 fold_map comp_def BoardAt_def kNumCols_def idx tally_def Let_def
        del: upt_Suc cong: if_cong)
  also have "\<dots> = fold tally (take (9 * 9) (board s)) (0, 0)"
    using fold_rows [of 9 9 "board s" tally "(0, 0)"] len by simp
  also have "\<dots> = (int (marbles s kPlayer1), int (marbles s kPlayer2))"
    using len by (simp add: fold_tally marbles_def)
  finally show ?thesis .
qed

lemma Returns_undecided:
  assumes "well_formed s" and "outcome s = kInvalidPlayer"
    and "8 < marbles s kPlayer1" and "marbles s kPlayer1 \<le> 14"
    and "8 < marbles s kPlayer2" and "marbles s kPlayer2 \<le> 14"
  shows "\<exists>x. Returns s = [x, - x] \<and> x \<noteq> 1 \<and> - x \<noteq> 1"
proof -
  define b where "b = 14 - int (marbles s kPlayer2) - (14 - int (marbles s kPlayer1))"
  have b: "- 6 < b" "b < 6" using assms(3-6) by (simp_all add: b_def)
  have c: "\<not> int (marbles s kPlayer1) \<le> 14 - kMarblesToWin"
    "\<not> int (marbles s kPlayer2) \<le> 14 - kMarblesToWin"
    using assms(3,5) by (simp_all add: kMarblesToWin_def)
  have r: "Returns s = [of_int b / 10, - of_int b / 10]"
    unfolding Returns_def Let_def ballCount_marbles [OF assms(1)] fst_conv snd_conv b_def
    using assms(2) c by simp
  have y: "(of_int b :: rat) = 10 \<longleftrightarrow> b = 10" "(of_int b :: rat) = - 10 \<longleftrightarrow> b = - 10"
    using of_int_eq_iff [of b 10, where ?'a = rat] of_int_eq_iff [of b "- 10", where ?'a = rat]
    by simp_all
  have x: "(of_int b :: rat) / 10 \<noteq> 1" "- (of_int b :: rat) / 10 \<noteq> 1"
    using b by (simp_all add: y)
  show ?thesis
    by (rule exI [of _ "of_int b / 10"]) (use x in \<open>simp add: r del: divide_eq_eq_numeral1\<close>)
qed

lemma DoApplyAction_quiet_step:
  assumes "ActionToMove a = Inr m" and "IsValid m s = Inr True" and "Apply m s = Inr s1"
    and "current_player s1 = 0 \<or> current_player s1 = 1" and "well_formed s1"
    and "outcome s1 = kInvalidPlayer"
    and "8 < marbles s1 kPlayer1" and "marbles s1 kPlayer1 \<le> 14"
    and "8 < marbles s1 kPlayer2" and "marbles s1 kPlayer2 \<le> 14"
  shows "DoApplyAction s a
     = Inr (s1\<lparr>current_player := 1 - current_player s1, num_moves := num_moves s1 + 1\<rparr>)"
proof -
  obtain x where r: "Returns s1 = [x, - x]" "x \<noteq> 1" "- x \<noteq> 1"
    using Returns_undecided [OF assms(5-10)] by blast
  have "Returns s1 ! nat (current_player s1) \<noteq> 1"
    using assms(4) unfolding r(1) using r(2,3) by auto
  then show ?thesis
    using assms(1-4) by (auto simp: DoApplyAction_def Let_def)
qed

text \<open>The eight plies, one by one.\<close>

lemma played_1_step: "DoApplyAction NewInitialState 2016 = Inr played_1"
proof -
  have d: "ActionToMove 2016 = Inr (mkMove UP_RIGHT 7 4 6 4)"
    by (simp add: ActionToMove_def Let_def c_mod_def c_div_def Direction_cast_def Offsets_def
        Offsets_at_def narrow_int_def mkMove_def kNumActionsPerDirection_def Direction_Last_def
        kNumCols_def)
  have p: "PlayerToState (CurrentPlayer NewInitialState) = Inr kPlayer1"
    by (simp add: CurrentPlayer_def IsTerminal_def NewInitialState_def ABALONE_INIT_CLASSIC_def PlayerToState_def
        kInvalidPlayer_def kHistoryMax_def)
  have v: "IsValid (mkMove UP_RIGHT 7 4 6 4) NewInitialState = Inr True"
    unfolding IsValid_def IsValidSlide_def Let_def mkMove_fields p
    by (simp add: numeral_2_eq_2 numeral_3_eq_3 index_ok_def kNumRows_def kNumCols_def
        kNumCells_def BoardAt_def NewInitialState_def ABALONE_INIT_CLASSIC_def all_directions_def Offsets_def)
  have a: "Apply (mkMove UP_RIGHT 7 4 6 4) NewInitialState
      = Inr (played_1\<lparr>current_player := 0, num_moves := 0\<rparr>)"
    unfolding Apply_def ApplyParallelMove_def Let_def mkMove_fields
    by (simp add: numeral_2_eq_2 numeral_3_eq_3 index_ok_def kNumRows_def kNumCols_def
        kNumCells_def BoardAt_def SetBoard_def Offsets_def NewInitialState_def ABALONE_INIT_CLASSIC_def played_1_def)
  have q: "well_formed (played_1\<lparr>current_player := 0, num_moves := 0\<rparr>)"
    "marbles (played_1\<lparr>current_player := 0, num_moves := 0\<rparr>) kPlayer1 = 14"
    "marbles (played_1\<lparr>current_player := 0, num_moves := 0\<rparr>) kPlayer2 = 14"
    by (simp_all add: well_formed_length marbles_def played_1_def)
  show ?thesis
    using DoApplyAction_quiet_step [OF d v a _ q(1)] q(2,3)
    by (simp add: played_1_def)
qed

lemma played_2_step: "DoApplyAction played_1 175 = Inr played_2"
proof -
  have d: "ActionToMove 175 = Inr (mkMove DOWN_RIGHT 0 5 1 5)"
    by (simp add: ActionToMove_def Let_def c_mod_def c_div_def Direction_cast_def Offsets_def
        Offsets_at_def narrow_int_def mkMove_def kNumActionsPerDirection_def Direction_Last_def
        kNumCols_def)
  have p: "PlayerToState (CurrentPlayer played_1) = Inr kPlayer2"
    by (simp add: CurrentPlayer_def IsTerminal_def played_1_def PlayerToState_def
        kInvalidPlayer_def kHistoryMax_def)
  have v: "IsValid (mkMove DOWN_RIGHT 0 5 1 5) played_1 = Inr True"
    unfolding IsValid_def Let_def mkMove_fields p line_content_loop_6
    by (simp add: kNumRows_def kNumCols_def BoardAt_def played_1_def Offsets_def
        cell_at_def in_grid_def)
  have a: "Apply (mkMove DOWN_RIGHT 0 5 1 5) played_1
      = Inr (played_2\<lparr>current_player := 1, num_moves := 1\<rparr>)"
    unfolding Apply_def Let_def mkMove_fields ApplySingleMove_def
    by (simp add: Offsets_def ApplySingleMove_loop_marble ApplySingleMove_loop_empty
        ApplySingleMove_loop_stop cell_at_def in_grid_def is_marble_def kNumRows_def
        kNumCols_def BoardAt_def SetBoard_def played_1_def played_2_def)
  have q: "well_formed (played_2\<lparr>current_player := 1, num_moves := 1\<rparr>)"
    "marbles (played_2\<lparr>current_player := 1, num_moves := 1\<rparr>) kPlayer1 = 14"
    "marbles (played_2\<lparr>current_player := 1, num_moves := 1\<rparr>) kPlayer2 = 14"
    by (simp_all add: well_formed_length marbles_def played_2_def)
  show ?thesis
    using DoApplyAction_quiet_step [OF d v a _ q(1)] q(2,3)
    by (simp add: played_2_def)
qed

lemma played_3_step: "DoApplyAction played_2 1505 = Inr played_3"
proof -
  have d: "ActionToMove 1505 = Inr (mkMove UP_RIGHT 5 5 4 6)"
    by (simp add: ActionToMove_def Let_def c_mod_def c_div_def Direction_cast_def Offsets_def
        Offsets_at_def narrow_int_def mkMove_def kNumActionsPerDirection_def Direction_Last_def
        kNumCols_def)
  have p: "PlayerToState (CurrentPlayer played_2) = Inr kPlayer1"
    by (simp add: CurrentPlayer_def IsTerminal_def played_2_def PlayerToState_def
        kInvalidPlayer_def kHistoryMax_def)
  have v: "IsValid (mkMove UP_RIGHT 5 5 4 6) played_2 = Inr True"
    unfolding IsValid_def Let_def mkMove_fields p line_content_loop_6
    by (simp add: kNumRows_def kNumCols_def BoardAt_def played_2_def Offsets_def
        cell_at_def in_grid_def)
  have a: "Apply (mkMove UP_RIGHT 5 5 4 6) played_2
      = Inr (played_3\<lparr>current_player := 0, num_moves := 2\<rparr>)"
    unfolding Apply_def Let_def mkMove_fields ApplySingleMove_def
    by (simp add: Offsets_def ApplySingleMove_loop_marble ApplySingleMove_loop_empty
        ApplySingleMove_loop_stop cell_at_def in_grid_def is_marble_def kNumRows_def
        kNumCols_def BoardAt_def SetBoard_def played_2_def played_3_def)
  have q: "well_formed (played_3\<lparr>current_player := 0, num_moves := 2\<rparr>)"
    "marbles (played_3\<lparr>current_player := 0, num_moves := 2\<rparr>) kPlayer1 = 14"
    "marbles (played_3\<lparr>current_player := 0, num_moves := 2\<rparr>) kPlayer2 = 14"
    by (simp_all add: well_formed_length marbles_def played_3_def)
  show ?thesis
    using DoApplyAction_quiet_step [OF d v a _ q(1)] q(2,3)
    by (simp add: played_3_def)
qed

lemma played_4_step: "DoApplyAction played_3 445 = Inr played_4"
proof -
  have d: "ActionToMove 445 = Inr (mkMove DOWN_RIGHT 1 5 2 5)"
    by (simp add: ActionToMove_def Let_def c_mod_def c_div_def Direction_cast_def Offsets_def
        Offsets_at_def narrow_int_def mkMove_def kNumActionsPerDirection_def Direction_Last_def
        kNumCols_def)
  have p: "PlayerToState (CurrentPlayer played_3) = Inr kPlayer2"
    by (simp add: CurrentPlayer_def IsTerminal_def played_3_def PlayerToState_def
        kInvalidPlayer_def kHistoryMax_def)
  have v: "IsValid (mkMove DOWN_RIGHT 1 5 2 5) played_3 = Inr True"
    unfolding IsValid_def Let_def mkMove_fields p line_content_loop_6
    by (simp add: kNumRows_def kNumCols_def BoardAt_def played_3_def Offsets_def
        cell_at_def in_grid_def)
  have a: "Apply (mkMove DOWN_RIGHT 1 5 2 5) played_3
      = Inr (played_4\<lparr>current_player := 1, num_moves := 3\<rparr>)"
    unfolding Apply_def Let_def mkMove_fields ApplySingleMove_def
    by (simp add: Offsets_def ApplySingleMove_loop_marble ApplySingleMove_loop_empty
        ApplySingleMove_loop_stop cell_at_def in_grid_def is_marble_def kNumRows_def
        kNumCols_def BoardAt_def SetBoard_def played_3_def played_4_def)
  have q: "well_formed (played_4\<lparr>current_player := 1, num_moves := 3\<rparr>)"
    "marbles (played_4\<lparr>current_player := 1, num_moves := 3\<rparr>) kPlayer1 = 14"
    "marbles (played_4\<lparr>current_player := 1, num_moves := 3\<rparr>) kPlayer2 = 14"
    by (simp_all add: well_formed_length marbles_def played_4_def)
  show ?thesis
    using DoApplyAction_quiet_step [OF d v a _ q(1)] q(2,3)
    by (simp add: played_4_def)
qed

lemma played_5_step: "DoApplyAction played_4 1982 = Inr played_5"
proof -
  have d: "ActionToMove 1982 = Inr (mkMove RIGHT 7 3 6 3)"
    by (simp add: ActionToMove_def Let_def c_mod_def c_div_def Direction_cast_def Offsets_def
        Offsets_at_def narrow_int_def mkMove_def kNumActionsPerDirection_def Direction_Last_def
        kNumCols_def)
  have p: "PlayerToState (CurrentPlayer played_4) = Inr kPlayer1"
    by (simp add: CurrentPlayer_def IsTerminal_def played_4_def PlayerToState_def
        kInvalidPlayer_def kHistoryMax_def)
  have v: "IsValid (mkMove RIGHT 7 3 6 3) played_4 = Inr True"
    unfolding IsValid_def IsValidSlide_def Let_def mkMove_fields p
    by (simp add: numeral_2_eq_2 numeral_3_eq_3 index_ok_def kNumRows_def kNumCols_def
        kNumCells_def BoardAt_def played_4_def all_directions_def Offsets_def)
  have a: "Apply (mkMove RIGHT 7 3 6 3) played_4
      = Inr (played_5\<lparr>current_player := 0, num_moves := 4\<rparr>)"
    unfolding Apply_def ApplyParallelMove_def Let_def mkMove_fields
    by (simp add: numeral_2_eq_2 numeral_3_eq_3 index_ok_def kNumRows_def kNumCols_def
        kNumCells_def BoardAt_def SetBoard_def Offsets_def played_4_def played_5_def)
  have q: "well_formed (played_5\<lparr>current_player := 0, num_moves := 4\<rparr>)"
    "marbles (played_5\<lparr>current_player := 0, num_moves := 4\<rparr>) kPlayer1 = 14"
    "marbles (played_5\<lparr>current_player := 0, num_moves := 4\<rparr>) kPlayer2 = 14"
    by (simp_all add: well_formed_length marbles_def played_5_def)
  show ?thesis
    using DoApplyAction_quiet_step [OF d v a _ q(1)] q(2,3)
    by (simp add: played_5_def)
qed

lemma played_6_step: "DoApplyAction played_5 715 = Inr played_6"
proof -
  have d: "ActionToMove 715 = Inr (mkMove DOWN_RIGHT 2 5 3 5)"
    by (simp add: ActionToMove_def Let_def c_mod_def c_div_def Direction_cast_def Offsets_def
        Offsets_at_def narrow_int_def mkMove_def kNumActionsPerDirection_def Direction_Last_def
        kNumCols_def)
  have p: "PlayerToState (CurrentPlayer played_5) = Inr kPlayer2"
    by (simp add: CurrentPlayer_def IsTerminal_def played_5_def PlayerToState_def
        kInvalidPlayer_def kHistoryMax_def)
  have v: "IsValid (mkMove DOWN_RIGHT 2 5 3 5) played_5 = Inr True"
    unfolding IsValid_def Let_def mkMove_fields p line_content_loop_6
    by (simp add: kNumRows_def kNumCols_def BoardAt_def played_5_def Offsets_def
        cell_at_def in_grid_def)
  have a: "Apply (mkMove DOWN_RIGHT 2 5 3 5) played_5
      = Inr (played_6\<lparr>current_player := 1, num_moves := 5\<rparr>)"
    unfolding Apply_def Let_def mkMove_fields ApplySingleMove_def
    by (simp add: Offsets_def ApplySingleMove_loop_marble ApplySingleMove_loop_empty
        ApplySingleMove_loop_stop cell_at_def in_grid_def is_marble_def kNumRows_def
        kNumCols_def BoardAt_def SetBoard_def played_5_def played_6_def)
  have q: "well_formed (played_6\<lparr>current_player := 1, num_moves := 5\<rparr>)"
    "marbles (played_6\<lparr>current_player := 1, num_moves := 5\<rparr>) kPlayer1 = 14"
    "marbles (played_6\<lparr>current_player := 1, num_moves := 5\<rparr>) kPlayer2 = 14"
    by (simp_all add: well_formed_length marbles_def played_6_def)
  show ?thesis
    using DoApplyAction_quiet_step [OF d v a _ q(1)] q(2,3)
    by (simp add: played_6_def)
qed

lemma played_7_step: "DoApplyAction played_6 2230 = Inr played_7"
proof -
  have d: "ActionToMove 2230 = Inr (mkMove UP_LEFT 8 2 7 2)"
    by (simp add: ActionToMove_def Let_def c_mod_def c_div_def Direction_cast_def Offsets_def
        Offsets_at_def narrow_int_def mkMove_def kNumActionsPerDirection_def Direction_Last_def
        kNumCols_def)
  have p: "PlayerToState (CurrentPlayer played_6) = Inr kPlayer1"
    by (simp add: CurrentPlayer_def IsTerminal_def played_6_def PlayerToState_def
        kInvalidPlayer_def kHistoryMax_def)
  have v: "IsValid (mkMove UP_LEFT 8 2 7 2) played_6 = Inr True"
    unfolding IsValid_def Let_def mkMove_fields p line_content_loop_6
    by (simp add: kNumRows_def kNumCols_def BoardAt_def played_6_def Offsets_def
        cell_at_def in_grid_def)
  have a: "Apply (mkMove UP_LEFT 8 2 7 2) played_6
      = Inr (played_7\<lparr>current_player := 0, num_moves := 6\<rparr>)"
    unfolding Apply_def Let_def mkMove_fields ApplySingleMove_def
    by (simp add: Offsets_def ApplySingleMove_loop_marble ApplySingleMove_loop_empty
        ApplySingleMove_loop_stop cell_at_def in_grid_def is_marble_def kNumRows_def
        kNumCols_def BoardAt_def SetBoard_def played_6_def played_7_def)
  have q: "well_formed (played_7\<lparr>current_player := 0, num_moves := 6\<rparr>)"
    "marbles (played_7\<lparr>current_player := 0, num_moves := 6\<rparr>) kPlayer1 = 14"
    "marbles (played_7\<lparr>current_player := 0, num_moves := 6\<rparr>) kPlayer2 = 14"
    by (simp_all add: well_formed_length marbles_def played_7_def)
  show ?thesis
    using DoApplyAction_quiet_step [OF d v a _ q(1)] q(2,3)
    by (simp add: played_7_def)
qed

lemma played_8_step: "DoApplyAction played_7 985 = Inr played_8"
proof -
  have d: "ActionToMove 985 = Inr (mkMove DOWN_RIGHT 3 5 4 5)"
    by (simp add: ActionToMove_def Let_def c_mod_def c_div_def Direction_cast_def Offsets_def
        Offsets_at_def narrow_int_def mkMove_def kNumActionsPerDirection_def Direction_Last_def
        kNumCols_def)
  have p: "PlayerToState (CurrentPlayer played_7) = Inr kPlayer2"
    by (simp add: CurrentPlayer_def IsTerminal_def played_7_def PlayerToState_def
        kInvalidPlayer_def kHistoryMax_def)
  have v: "IsValid (mkMove DOWN_RIGHT 3 5 4 5) played_7 = Inr True"
    unfolding IsValid_def Let_def mkMove_fields p line_content_loop_6
    by (simp add: kNumRows_def kNumCols_def BoardAt_def played_7_def Offsets_def
        cell_at_def in_grid_def)
  have a: "Apply (mkMove DOWN_RIGHT 3 5 4 5) played_7
      = Inr (played_8\<lparr>current_player := 1, num_moves := 7\<rparr>)"
    unfolding Apply_def Let_def mkMove_fields ApplySingleMove_def
    by (simp add: Offsets_def ApplySingleMove_loop_marble ApplySingleMove_loop_empty
        ApplySingleMove_loop_stop cell_at_def in_grid_def is_marble_def kNumRows_def
        kNumCols_def BoardAt_def SetBoard_def played_7_def played_8_def)
  have q: "well_formed (played_8\<lparr>current_player := 1, num_moves := 7\<rparr>)"
    "marbles (played_8\<lparr>current_player := 1, num_moves := 7\<rparr>) kPlayer1 = 13"
    "marbles (played_8\<lparr>current_player := 1, num_moves := 7\<rparr>) kPlayer2 = 14"
    by (simp_all add: well_formed_length marbles_def played_8_def)
  show ?thesis
    using DoApplyAction_quiet_step [OF d v a _ q(1)] q(2,3)
    by (simp add: played_8_def)
qed

lemma played_7_reachable: "reachable played_7"
  by (rule reachable_step [OF reachable_step [OF reachable_step [OF reachable_step
      [OF reachable_step [OF reachable_step [OF reachable_step [OF reachable_init
      played_1_step] played_2_step] played_3_step] played_4_step] played_5_step]
      played_6_step] played_7_step])

text \<open>
  Two instances of claim C9 in this game. The push of ply 8 stops at the invalid cell
  \<open>(8, 5)\<close> without writing to it, and the marble it carried there is gone; the slide of
  ply 1 leaves the invalid cell \<open>(6, 7)\<close> as it is.
\<close>

theorem invalid_cells_never_change_witness:
  "reachable played_7 \<and> DoApplyAction played_7 985 = Inr played_8 \<and>
   ActionToMove 985 = Inr (mkMove DOWN_RIGHT 3 5 4 5) \<and>
   in_grid 8 5 \<and> BoardAt played_7 8 5 = kInvalid \<and> BoardAt played_8 8 5 = kInvalid \<and>
   BoardAt played_7 7 5 = kPlayer1 \<and> BoardAt played_8 7 5 = kPlayer1 \<and>
   BoardAt played_8 6 5 = kPlayer2 \<and>
   marbles played_7 kPlayer1 = 14 \<and> marbles played_8 kPlayer1 = 13 \<and>
   reachable NewInitialState \<and> DoApplyAction NewInitialState 2016 = Inr played_1 \<and>
   ActionToMove 2016 = Inr (mkMove UP_RIGHT 7 4 6 4) \<and>
   in_grid 6 7 \<and> BoardAt NewInitialState 6 7 = kInvalid \<and> BoardAt played_1 6 7 = kInvalid"
proof -
  have g: "in_grid 8 5" "in_grid 6 7" by (simp_all add: in_grid_def kNumRows_def kNumCols_def)
  have b: "BoardAt played_7 8 5 = kInvalid" "BoardAt played_7 7 5 = kPlayer1"
    "BoardAt played_8 7 5 = kPlayer1" "BoardAt played_8 6 5 = kPlayer2"
    "BoardAt NewInitialState 6 7 = kInvalid"
    by (simp_all add: BoardAt_def kNumCols_def played_7_def played_8_def initial_board)
  have c: "marbles played_7 kPlayer1 = 14" "marbles played_8 kPlayer1 = 13"
    by (simp_all add: marbles_def played_7_def played_8_def)
  have d: "ActionToMove 985 = Inr (mkMove DOWN_RIGHT 3 5 4 5)"
    by (simp add: ActionToMove_def Let_def c_mod_def c_div_def Direction_cast_def Offsets_def
        Offsets_at_def narrow_int_def mkMove_def kNumActionsPerDirection_def Direction_Last_def
        kNumCols_def)
  show ?thesis
    using invalid_cells_never_change [OF played_7_reachable played_8_step g(1) b(1)]
      invalid_cells_never_change [OF reachable_init played_1_step g(2) b(5)]
      played_7_reachable played_8_step reachable_init played_1_step g b c d decode_2016
    by simp
qed

end
